theory Spec2Isabelle
  imports Complex_Main "HOL-Library.Log_Nat"
begin

section \<open>Python values used by the program\<close>

text \<open>
  The exceptions the modelled code can raise.  \<open>AssertionError\<close> is what an \<open>assert\<close>
  raises, \<open>IndexError\<close> an out-of-range list subscript, \<open>StopIteration\<close> a \<open>next\<close> on an
  exhausted generator, \<open>ValueError\<close> a failed \<open>list.index\<close>, \<open>ZeroDivisionError\<close> and
  \<open>OverflowError\<close> come from the arithmetic.
\<close>

datatype error =
  AssertionError | IndexError | StopIteration | ValueError | ZeroDivisionError | OverflowError

definition ebind :: "error + 'a \<Rightarrow> ('a \<Rightarrow> error + 'b) \<Rightarrow> error + 'b" where
  "ebind m f = (case m of Inl e \<Rightarrow> Inl e | Inr x \<Rightarrow> f x)"

text \<open>List subscript \<open>xs[i]\<close>: a negative index counts from the end.\<close>

definition getitem :: "'a list \<Rightarrow> int \<Rightarrow> error + 'a" where
  "getitem xs i =
     (if 0 \<le> i \<and> i < int (length xs) then Inr (xs ! nat i)
      else if i < 0 \<and> - int (length xs) \<le> i then Inr (xs ! nat (int (length xs) + i))
      else Inl IndexError)"

text \<open>\<open>xs.index(x)\<close>: the position of the first element equal to \<open>x\<close>.\<close>

fun index_of :: "'a list \<Rightarrow> 'a \<Rightarrow> error + nat" where
  "index_of [] x = Inl ValueError"
| "index_of (y # ys) x =
     (if y = x then Inr 0 else ebind (index_of ys x) (\<lambda>i. Inr (Suc i)))"

subsection \<open>Floats\<close>

text \<open>
  A Python \<open>float\<close> is an IEEE 754 binary64 number.  A finite one is the rational it
  denotes: \<open>m * 2 ^ e\<close> with \<open>\<bar>m\<bar> < 2 ^ 53\<close> and \<open>- 1074 \<le> e \<le> 971\<close>.  The two zeros are
  one value here: they compare equal and the program only adds, subtracts and multiplies.

  \<open>ilog2 x\<close> is the binary exponent \<open>\<lfloor>log\<^sub>2 \<bar>x\<bar>\<rfloor>\<close> of a nonzero rational, \<open>round53\<close> rounds to
  the nearest 53-bit significand (ties to even, gradual underflow below \<open>2 ^ - 1022\<close>), and
  \<open>to_double\<close> adds the overflow to an infinity: the rounded value is too large when its
  binary exponent exceeds 1023, that is, from \<open>2 ^ 1024\<close> on.
\<close>

datatype pyfloat = Fin rat | PInf | NInf | NaN

definition ilog2 :: "rat \<Rightarrow> int" where
  "ilog2 x = (case quotient_of \<bar>x\<bar> of (p, q) \<Rightarrow>
     let d = bitlen p - bitlen q in if 2 powi d \<le> \<bar>x\<bar> then d else d - 1)"

definition round_half_even :: "rat \<Rightarrow> int" where
  "round_half_even q = (let f = \<lfloor>q\<rfloor>; r = q - of_int f in
     if r < 1 / 2 then f else if 1 / 2 < r then f + 1 else if even f then f else f + 1)"

definition round53 :: "rat \<Rightarrow> rat" where
  "round53 x = (if x = 0 then 0 else
     let e = max (ilog2 x - 52) (- 1074)
     in of_int (round_half_even (x / 2 powi e)) * 2 powi e)"

definition to_double :: "rat \<Rightarrow> pyfloat" where
  "to_double x = (let r = round53 x in
     if 1024 \<le> ilog2 r then (if 0 < x then PInf else NInf) else Fin r)"

fun fneg :: "pyfloat \<Rightarrow> pyfloat" where
  "fneg (Fin a) = Fin (- a)"
| "fneg PInf = NInf"
| "fneg NInf = PInf"
| "fneg NaN = NaN"

fun fadd :: "pyfloat \<Rightarrow> pyfloat \<Rightarrow> pyfloat" where
  "fadd (Fin a) (Fin b) = to_double (a + b)"
| "fadd NaN y = NaN"
| "fadd x NaN = NaN"
| "fadd PInf NInf = NaN"
| "fadd NInf PInf = NaN"
| "fadd PInf y = PInf"
| "fadd NInf y = NInf"
| "fadd x PInf = PInf"
| "fadd x NInf = NInf"

definition fsub :: "pyfloat \<Rightarrow> pyfloat \<Rightarrow> pyfloat" where
  "fsub x y = fadd x (fneg y)"

fun fmul :: "pyfloat \<Rightarrow> pyfloat \<Rightarrow> pyfloat" where
  "fmul (Fin a) (Fin b) = to_double (a * b)"
| "fmul NaN y = NaN"
| "fmul x NaN = NaN"
| "fmul (Fin a) PInf = (if a = 0 then NaN else if 0 < a then PInf else NInf)"
| "fmul (Fin a) NInf = (if a = 0 then NaN else if 0 < a then NInf else PInf)"
| "fmul PInf (Fin b) = (if b = 0 then NaN else if 0 < b then PInf else NInf)"
| "fmul NInf (Fin b) = (if b = 0 then NaN else if 0 < b then NInf else PInf)"
| "fmul PInf PInf = PInf"
| "fmul PInf NInf = NInf"
| "fmul NInf PInf = NInf"
| "fmul NInf NInf = PInf"

subsection \<open>Numbers: \<open>int\<close> or \<open>float\<close>\<close>

text \<open>
  The electricity field is an \<open>int\<close>, the gas field a \<open>float\<close>, and \<open>Reading.get\<close> returns
  either.  Arithmetic on two ints is exact; with a float operand the int operand is first
  converted, which raises \<open>OverflowError\<close> when it is too large.  The true division of two
  ints is the correctly rounded quotient.
\<close>

datatype pynum = PInt int | PFloat pyfloat

definition float_of_int :: "int \<Rightarrow> error + pyfloat" where
  "float_of_int n =
     (case to_double (of_int n) of Fin r \<Rightarrow> Inr (Fin r) | _ \<Rightarrow> Inl OverflowError)"

fun as_float :: "pynum \<Rightarrow> error + pyfloat" where
  "as_float (PInt n) = float_of_int n"
| "as_float (PFloat x) = Inr x"

fun py_add :: "pynum \<Rightarrow> pynum \<Rightarrow> error + pynum" where
  "py_add (PInt m) (PInt n) = Inr (PInt (m + n))"
| "py_add a b = ebind (as_float a) (\<lambda>x. ebind (as_float b) (\<lambda>y. Inr (PFloat (fadd x y))))"

fun py_sub :: "pynum \<Rightarrow> pynum \<Rightarrow> error + pynum" where
  "py_sub (PInt m) (PInt n) = Inr (PInt (m - n))"
| "py_sub a b = ebind (as_float a) (\<lambda>x. ebind (as_float b) (\<lambda>y. Inr (PFloat (fsub x y))))"

fun py_mul :: "pynum \<Rightarrow> pynum \<Rightarrow> error + pynum" where
  "py_mul (PInt m) (PInt n) = Inr (PInt (m * n))"
| "py_mul a b = ebind (as_float a) (\<lambda>x. ebind (as_float b) (\<lambda>y. Inr (PFloat (fmul x y))))"

definition int_truediv :: "int \<Rightarrow> int \<Rightarrow> error + pyfloat" where
  "int_truediv a b =
     (if b = 0 then Inl ZeroDivisionError
      else case to_double (of_int a / of_int b) of
             Fin r \<Rightarrow> Inr (Fin r) | _ \<Rightarrow> Inl OverflowError)"

section \<open>The program\<close>

text \<open>
  A \<open>date\<close> is its day number (\<open>date.toordinal()\<close>), so adding \<open>timedelta(days=n)\<close> adds
  \<open>n\<close>; the calendar's end at year 9999 is not modelled.
\<close>

type_synonym date = int

definition interpolate :: "int \<Rightarrow> int \<Rightarrow> int \<Rightarrow> pynum \<Rightarrow> pynum \<Rightarrow> error + pynum" where
  "interpolate first second current data_first data_second =
     ebind (int_truediv (current - first) (second - first)) (\<lambda>progress.
     ebind (py_sub data_second data_first) (\<lambda>delta.
     ebind (py_mul delta (PFloat progress)) (\<lambda>scaled.
       py_add data_first scaled)))"

text \<open>
  \<open>ts\<close> is the POSIX timestamp of local midnight.  The local time zone belongs to the
  machine, not to the program: \<open>tz day\<close> is its UTC offset in seconds at that midnight.
  Day 719163 is 1970-01-01.
\<close>

definition ts :: "(date \<Rightarrow> int) \<Rightarrow> date \<Rightarrow> int" where
  "ts tz day = 86400 * (day - 719163) - tz day"

datatype energy = Electricity | Gas

record Reading =
  r_at :: date
  electricity :: int
  gas :: pyfloat

fun get :: "Reading \<Rightarrow> energy \<Rightarrow> pynum" where
  "get r Electricity = PInt (electricity r)"
| "get r Gas = PFloat (gas r)"

record Weather =
  w_at :: date
  air_mean :: pyfloat

record Data =
  readings :: "Reading list"
  weathers :: "Weather list"

definition reading :: "(date \<Rightarrow> int) \<Rightarrow> Data \<Rightarrow> date \<Rightarrow> energy \<Rightarrow> error + pynum" where
  "reading tz d a en =
     ebind (getitem (readings d) 0) (\<lambda>r0.
     if \<not> r_at r0 \<le> a then Inl AssertionError else
     ebind (getitem (readings d) (- 1)) (\<lambda>rl.
     if \<not> a \<le> r_at rl then Inl AssertionError else
     if a = r_at r0 then Inr (get r0 en) else
     case find (\<lambda>r. a \<le> r_at r) (readings d) of
       None \<Rightarrow> Inl StopIteration
     | Some second_reading \<Rightarrow>
         ebind (index_of (readings d) second_reading) (\<lambda>i.
         ebind (getitem (readings d) (int i - 1)) (\<lambda>first_reading.
           interpolate
             (ts tz (r_at first_reading))
             (ts tz (r_at second_reading))
             (ts tz a)
             (get first_reading en)
             (get second_reading en)))))"

definition usage :: "(date \<Rightarrow> int) \<Rightarrow> Data \<Rightarrow> date \<Rightarrow> energy \<Rightarrow> error + pynum" where
  "usage tz d a en =
     ebind (getitem (readings d) 0) (\<lambda>r0.
     if \<not> r_at r0 < a then Inl AssertionError else
     ebind (getitem (readings d) (- 1)) (\<lambda>rl.
     if \<not> a \<le> r_at rl then Inl AssertionError else
     ebind (reading tz d a en) (\<lambda>x.
     ebind (reading tz d (a - 1) en) (\<lambda>y.
       py_sub x y))))"

definition electricity_reading :: "(date \<Rightarrow> int) \<Rightarrow> Data \<Rightarrow> date \<Rightarrow> error + pynum" where
  "electricity_reading tz d a = reading tz d a Electricity"

definition electricity_usage :: "(date \<Rightarrow> int) \<Rightarrow> Data \<Rightarrow> date \<Rightarrow> error + pynum" where
  "electricity_usage tz d a = usage tz d a Electricity"

definition gas_reading :: "(date \<Rightarrow> int) \<Rightarrow> Data \<Rightarrow> date \<Rightarrow> error + pynum" where
  "gas_reading tz d a = reading tz d a Gas"

definition gas_usage :: "(date \<Rightarrow> int) \<Rightarrow> Data \<Rightarrow> date \<Rightarrow> error + pynum" where
  "gas_usage tz d a = usage tz d a Gas"

text \<open>The generator behind \<open>dates\<close>: the days from \<open>day\<close> up to the last reading's.\<close>

function dates_loop :: "date \<Rightarrow> date \<Rightarrow> date list" where
  "dates_loop day stop = (if day \<le> stop then day # dates_loop (day + 1) stop else [])"
  by pat_completeness auto
termination
  by (relation "measure (\<lambda>(day, stop). nat (stop + 1 - day))") auto

declare dates_loop.simps [simp del]

definition dates :: "Data \<Rightarrow> error + date list" where
  "dates d =
     ebind (getitem (readings d) 0) (\<lambda>r0.
     ebind (getitem (readings d) (- 1)) (\<lambda>rl.
       Inr (dates_loop (r_at r0 + 1) (r_at rl))))"

definition usage_dates :: "Data \<Rightarrow> error + date list" where
  "usage_dates d = ebind (dates d) (\<lambda>ds. Inr (drop 1 ds))"

definition average_annual_electricity_consumption ::
    "(date \<Rightarrow> int) \<Rightarrow> Data \<Rightarrow> error + pynum" where
  "average_annual_electricity_consumption tz d =
     ebind (usage_dates d) (\<lambda>ds.
     ebind (getitem ds 0) (\<lambda>start.
     let end = start + 365 in
     ebind (electricity_reading tz d start) (\<lambda>electricity_start.
     ebind (electricity_reading tz d end) (\<lambda>electricity_end.
       py_sub electricity_end electricity_start))))"

definition average_annual_gas_consumption ::
    "(date \<Rightarrow> int) \<Rightarrow> Data \<Rightarrow> error + pynum" where
  "average_annual_gas_consumption tz d =
     ebind (usage_dates d) (\<lambda>ds.
     ebind (getitem ds 0) (\<lambda>start.
     let end = start + 365 in
     ebind (gas_reading tz d start) (\<lambda>gas_start.
     ebind (gas_reading tz d end) (\<lambda>gas_end.
       py_sub gas_end gas_start))))"

text \<open>
  The two weather generators.  Each test reads \<open>readings[0]\<close> and, when the first
  comparison holds, \<open>readings[-1]\<close>; an exception discards the list built so far.
\<close>

fun temperature_dates_loop :: "Reading list \<Rightarrow> Weather list \<Rightarrow> error + date list" where
  "temperature_dates_loop rs [] = Inr []"
| "temperature_dates_loop rs (weather # ws) =
     ebind (getitem rs 0) (\<lambda>r0.
     if \<not> r_at r0 \<le> w_at weather then temperature_dates_loop rs ws else
     ebind (getitem rs (- 1)) (\<lambda>rl.
     if \<not> w_at weather \<le> r_at rl then temperature_dates_loop rs ws else
     ebind (temperature_dates_loop rs ws) (\<lambda>out. Inr (w_at weather # out))))"

definition temperature_dates :: "Data \<Rightarrow> error + date list" where
  "temperature_dates d = temperature_dates_loop (readings d) (weathers d)"

fun air_means_loop :: "Reading list \<Rightarrow> Weather list \<Rightarrow> error + pyfloat list" where
  "air_means_loop rs [] = Inr []"
| "air_means_loop rs (weather # ws) =
     ebind (getitem rs 0) (\<lambda>r0.
     if \<not> r_at r0 \<le> w_at weather then air_means_loop rs ws else
     ebind (getitem rs (- 1)) (\<lambda>rl.
     if \<not> w_at weather \<le> r_at rl then air_means_loop rs ws else
     ebind (air_means_loop rs ws) (\<lambda>out. Inr (air_mean weather # out))))"

definition air_means :: "Data \<Rightarrow> error + pyfloat list" where
  "air_means d = air_means_loop (readings d) (weathers d)"

text \<open>
  The module-level report: the two estimates are printed in turn, and an
  \<open>AssertionError\<close> from either is caught and replaced by the insufficient-data line.
  The result is the lines printed and the exception that escapes, if any.
\<close>

datatype line = AnnualElectricity pynum | AnnualGas pynum | InsufficientData

definition handler :: "line list \<Rightarrow> error \<Rightarrow> line list \<times> error option" where
  "handler out e = (if e = AssertionError then (out @ [InsufficientData], None) else (out, Some e))"

definition report :: "(date \<Rightarrow> int) \<Rightarrow> Data \<Rightarrow> line list \<times> error option" where
  "report tz d =
     (case average_annual_electricity_consumption tz d of
        Inl e \<Rightarrow> handler [] e
      | Inr x \<Rightarrow>
          (case average_annual_gas_consumption tz d of
             Inl e \<Rightarrow> handler [AnnualElectricity x] e
           | Inr y \<Rightarrow> ([AnnualElectricity x, AnnualGas y], None)))"

section \<open>Stores and their bounds\<close>

text \<open>
  The store invariant of the specification: at least one reading, dates strictly
  ascending (hence unique).
\<close>

definition store_ok :: "Data \<Rightarrow> bool" where
  "store_ok d \<longleftrightarrow> readings d \<noteq> [] \<and> sorted_wrt (<) (map r_at (readings d))"

definition first_at :: "Data \<Rightarrow> date" where
  "first_at d = r_at (hd (readings d))"

definition last_at :: "Data \<Rightarrow> date" where
  "last_at d = r_at (last (readings d))"

text \<open>
  \<open>meter_ok\<close>: every electricity reading is an int that a float holds exactly.
  \<open>grid\<close> describes the finite floats up to the exponent's upper limit, and \<open>is_double\<close>
  decides whether a rational is a finite float.
\<close>

definition meter_ok :: "Data \<Rightarrow> bool" where
  "meter_ok d \<longleftrightarrow> (\<forall>r \<in> set (readings d). \<bar>electricity r\<bar> \<le> 2 ^ 53)"

definition grid :: "rat \<Rightarrow> bool" where
  "grid x \<longleftrightarrow> (\<exists>m e. x = of_int m * 2 powi e \<and> \<bar>m\<bar> < 2 ^ 53 \<and> - 1074 \<le> e)"

definition is_double :: "rat \<Rightarrow> bool" where
  "is_double x \<longleftrightarrow> round53 x = x \<and> ilog2 x < 1024"

text \<open>
  Python's \<open><=\<close> on numbers compares an int and a float by their exact values, and is
  false when either side is a NaN.  \<open>value_ok\<close> holds of an int that a float holds exactly
  and of a finite float below \<open>2 ^ 1022\<close> in magnitude, so that the difference of two such
  values does not overflow.
\<close>

fun exact :: "pynum \<Rightarrow> pyfloat" where
  "exact (PInt n) = Fin (of_int n)"
| "exact (PFloat x) = x"

fun fle :: "pyfloat \<Rightarrow> pyfloat \<Rightarrow> bool" where
  "fle (Fin a) (Fin b) \<longleftrightarrow> a \<le> b"
| "fle NaN y \<longleftrightarrow> False"
| "fle x NaN \<longleftrightarrow> False"
| "fle NInf y \<longleftrightarrow> True"
| "fle x PInf \<longleftrightarrow> True"
| "fle PInf y \<longleftrightarrow> False"
| "fle x NInf \<longleftrightarrow> False"

definition py_le :: "pynum \<Rightarrow> pynum \<Rightarrow> bool" where
  "py_le a b \<longleftrightarrow> fle (exact a) (exact b)"

fun value_ok :: "pynum \<Rightarrow> bool" where
  "value_ok (PInt n) \<longleftrightarrow> \<bar>n\<bar> \<le> 2 ^ 53"
| "value_ok (PFloat (Fin x)) \<longleftrightarrow> is_double x \<and> ilog2 x < 1022"
| "value_ok (PFloat y) \<longleftrightarrow> False"

section \<open>Example stores\<close>

text \<open>
  The store of the specification's scenarios: readings on 2020-01-01 (day 737425) and
  2020-02-01 (day 737456), with weather samples on the 15th of December to March.
\<close>

definition january_store :: Data where
  "january_store = \<lparr>readings =
      [\<lparr>r_at = 737425, electricity = 1000, gas = Fin 100\<rparr>,
       \<lparr>r_at = 737456, electricity = 1100, gas = Fin 120\<rparr>],
     weathers =
      [\<lparr>w_at = 737408, air_mean = Fin 5\<rparr>,
       \<lparr>w_at = 737439, air_mean = Fin 6\<rparr>,
       \<lparr>w_at = 737470, air_mean = Fin 7\<rparr>,
       \<lparr>w_at = 737499, air_mean = Fin 8\<rparr>]\<rparr>"

definition single_store :: Data where
  "single_store = \<lparr>readings = [\<lparr>r_at = 737425, electricity = 1000, gas = Fin 100\<rparr>],
     weathers = []\<rparr>"

text \<open>A machine whose local time is UTC.\<close>

definition utc :: "date \<Rightarrow> int" where
  "utc day = 0"

text \<open>
  A store with a change of slope two days after its first reading, a store spanning 60
  days, and two stores whose gas readings are the floats \<open>0.2\<close>, \<open>0.3\<close> and \<open>0.9\<close>.
\<close>

definition kinked_store :: Data where
  "kinked_store = \<lparr>readings =
      [\<lparr>r_at = 737425, electricity = 0, gas = Fin 0\<rparr>,
       \<lparr>r_at = 737427, electricity = 2000, gas = Fin 2000\<rparr>,
       \<lparr>r_at = 738451, electricity = 3024, gas = Fin 3024\<rparr>],
     weathers = []\<rparr>"

definition sixty_day_store :: Data where
  "sixty_day_store = \<lparr>readings =
      [\<lparr>r_at = 737425, electricity = 1000, gas = Fin 100\<rparr>,
       \<lparr>r_at = 737485, electricity = 1200, gas = Fin 140\<rparr>],
     weathers = []\<rparr>"

definition tenths_store :: Data where
  "tenths_store = \<lparr>readings =
      [\<lparr>r_at = 737425, electricity = 0, gas = to_double (2 / 10)\<rparr>,
       \<lparr>r_at = 737426, electricity = 1, gas = to_double (9 / 10)\<rparr>],
     weathers = []\<rparr>"

definition thirds_store :: Data where
  "thirds_store = \<lparr>readings =
      [\<lparr>r_at = 737425, electricity = 0, gas = to_double (3 / 10)\<rparr>,
       \<lparr>r_at = 737435, electricity = 1, gas = to_double (9 / 10)\<rparr>],
     weathers = []\<rparr>"

text \<open>
  The UTC offsets of Pacific/Apia at the end of 2011, when Samoa crossed the date line:
  UTC-10 up to 2011-12-30 (day 734501), a day its local time skipped, and UTC+14 from
  2011-12-31 on.  The midnights of both days have the timestamp 1325239200.  The store
  has a reading on each of the last three days of that year.
\<close>

definition apia :: "date \<Rightarrow> int" where
  "apia day = (if day \<le> 734501 then - 36000 else 50400)"

definition apia_store :: Data where
  "apia_store = \<lparr>readings =
      [\<lparr>r_at = 734500, electricity = 1000, gas = Fin 100\<rparr>,
       \<lparr>r_at = 734501, electricity = 1010, gas = Fin 101\<rparr>,
       \<lparr>r_at = 734502, electricity = 1020, gas = Fin 102\<rparr>],
     weathers = []\<rparr>"

text \<open>A store whose meter readings are beyond \<open>2 ^ 53\<close>, where floats skip odd integers.\<close>

definition huge_meter_store :: Data where
  "huge_meter_store = \<lparr>readings =
      [\<lparr>r_at = 737425, electricity = 9007199254740993, gas = Fin 0\<rparr>,
       \<lparr>r_at = 737435, electricity = 9007199254740995, gas = Fin 0\<rparr>],
     weathers = []\<rparr>"

section \<open>Lists and errors\<close>

lemma ebind_Inr [simp]: "ebind (Inr x) f = f x"
  by (simp add: ebind_def)

lemma ebind_Inl [simp]: "ebind (Inl e) f = Inl e"
  by (simp add: ebind_def)

lemma getitem_Nil [simp]: "getitem [] i = Inl IndexError"
  by (simp add: getitem_def)

lemma getitem_first [simp]: "xs \<noteq> [] \<Longrightarrow> getitem xs 0 = Inr (hd xs)"
  by (cases xs) (simp_all add: getitem_def)

lemma getitem_last [simp]: "xs \<noteq> [] \<Longrightarrow> getitem xs (- 1) = Inr (last xs)"
proof -
  assume ne: "xs \<noteq> []"
  then have len: "1 \<le> length xs"
    by (cases xs) simp_all
  then have "nat (int (length xs) + - 1) = length xs - 1"
    by simp
  with ne len show ?thesis
    by (simp add: getitem_def last_conv_nth)
qed

lemma getitem_nth: "0 \<le> i \<Longrightarrow> i < int (length xs) \<Longrightarrow> getitem xs i = Inr (xs ! nat i)"
  by (simp add: getitem_def)

lemma hd_upto: "a \<le> b \<Longrightarrow> hd [a..b] = a"
  by (subst upto.simps) simp

lemma last_upto: "a \<le> b \<Longrightarrow> last [a..b] = b"
  by (simp add: upto_rec2)

lemma upto_strict_sorted: "sorted_wrt (<) [a..b::int]"
  using sorted_wrt_upto by (simp add: strict_sorted_iff)

section \<open>The date sequences\<close>

lemma dates_loop_upto: "dates_loop day stop = [day..stop]"
proof (induction day stop rule: dates_loop.induct)
  case (1 day stop)
  show ?case
  proof (cases "day \<le> stop")
    case True
    with 1 show ?thesis
      by (subst dates_loop.simps, subst upto.simps) simp
  next
    case False
    then show ?thesis
      by (subst dates_loop.simps) simp
  qed
qed

lemma dates_eq:
  "readings d \<noteq> [] \<Longrightarrow> dates d = Inr [first_at d + 1..last_at d]"
  by (simp add: dates_def dates_loop_upto first_at_def last_at_def)

lemma usage_dates_eq:
  "readings d \<noteq> [] \<Longrightarrow> usage_dates d = Inr [first_at d + 2..last_at d]"
proof -
  assume ne: "readings d \<noteq> []"
  have "drop 1 [first_at d + 1..last_at d] = [first_at d + 2..last_at d]"
    by (subst upto.simps) (simp add: add.commute)
  with ne show ?thesis
    by (simp add: usage_dates_def dates_eq)
qed

lemma sorted_first_last:
  assumes "sorted_wrt (<) (map r_at rs)" "2 \<le> length rs"
  shows "r_at (hd rs) < r_at (last rs)"
proof -
  from assms(2) have ne: "rs \<noteq> []" by auto
  have "map r_at rs ! 0 < map r_at rs ! (length rs - 1)"
    using sorted_wrt_nth_less [OF assms(1), of 0 "length rs - 1"] assms(2) by simp
  with ne show ?thesis
    by (simp add: hd_conv_nth last_conv_nth)
qed

text \<open>
  C1 (amended).  For a store with at least two readings, strictly ascending by date,
  \<open>dates\<close> is the dense sequence of the claim: one entry per calendar day from the day
  after the first reading to the last reading's day, \<open>(last.at - first.at).days\<close> entries.
  \<open>usage_dates\<close> is \<open>dates[1:]\<close>: it starts one day later, on the second day after the
  first reading, and has one entry less; it is strictly ascending, without gaps, and ends
  on the last reading's day.
\<close>

theorem usage_dates_dense:
  assumes "sorted_wrt (<) (map r_at (readings d))" and "2 \<le> length (readings d)"
  shows "dates d = Inr [first_at d + 1..last_at d]
       \<and> length [first_at d + 1..last_at d] = nat (last_at d - first_at d)
       \<and> usage_dates d = Inr [first_at d + 2..last_at d]
       \<and> length [first_at d + 2..last_at d] = nat (last_at d - first_at d) - 1
       \<and> sorted_wrt (<) [first_at d + 2..last_at d]
       \<and> (\<forall>i. Suc i < length [first_at d + 2..last_at d] \<longrightarrow>
             [first_at d + 2..last_at d] ! Suc i = [first_at d + 2..last_at d] ! i + 1)
       \<and> (first_at d + 2 \<le> last_at d \<longrightarrow>
             hd [first_at d + 2..last_at d] = first_at d + 2
           \<and> last [first_at d + 2..last_at d] = last_at d)"
proof -
  from assms(2) have ne: "readings d \<noteq> []" by auto
  have lt: "first_at d < last_at d"
    using sorted_first_last [OF assms] by (simp add: first_at_def last_at_def)
  show ?thesis
    using ne lt
    by (simp add: dates_eq usage_dates_eq upto_strict_sorted nat_diff_distrib hd_upto last_upto)
qed

theorem usage_dates_dense_witness:
  "sorted_wrt (<) (map r_at (readings january_store))
   \<and> 2 \<le> length (readings january_store)
   \<and> usage_dates january_store = Inr [737427..737456]
   \<and> length [737427..737456] = (30::nat)"
  using usage_dates_dense [of january_store]
  by (simp add: january_store_def first_at_def last_at_def)

text \<open>
  The claim as stated fails on the January store, which spans 31 days: the usage dates
  are the 30 days from 2020-01-03, not the 31 days from 2020-01-02.
\<close>

theorem usage_dates_starts_late:
  "usage_dates january_store = Inr [737427..737456]
   \<and> length [737427..737456] \<noteq> nat (last_at january_store - first_at january_store)
   \<and> hd [737427..737456] \<noteq> first_at january_store + 1"
  by (simp add: usage_dates_eq january_store_def first_at_def last_at_def hd_upto)

section \<open>The weather aligner\<close>

lemma temperature_dates_loop_eq:
  "rs \<noteq> [] \<Longrightarrow> temperature_dates_loop rs ws =
     Inr (map w_at (filter (\<lambda>w. r_at (hd rs) \<le> w_at w \<and> w_at w \<le> r_at (last rs)) ws))"
  by (induction ws) simp_all

lemma air_means_loop_eq:
  "rs \<noteq> [] \<Longrightarrow> air_means_loop rs ws =
     Inr (map air_mean (filter (\<lambda>w. r_at (hd rs) \<le> w_at w \<and> w_at w \<le> r_at (last rs)) ws))"
  by (induction ws) simp_all

text \<open>
  C6.  For a store with a reading, the aligned dates and the aligned air means are the
  \<open>at\<close> and the \<open>air_mean\<close> of one and the same sublist of the weather sequence: the entries
  with \<open>first.at \<le> at \<le> last.at\<close>, in their original order and unchanged.  The two
  sequences are therefore parallel.
\<close>

theorem weather_aligned:
  assumes "readings d \<noteq> []"
  shows "temperature_dates d =
           Inr (map w_at (filter (\<lambda>w. first_at d \<le> w_at w \<and> w_at w \<le> last_at d) (weathers d)))
       \<and> air_means d =
           Inr (map air_mean (filter (\<lambda>w. first_at d \<le> w_at w \<and> w_at w \<le> last_at d) (weathers d)))
       \<and> length (map w_at (filter (\<lambda>w. first_at d \<le> w_at w \<and> w_at w \<le> last_at d) (weathers d)))
         = length (map air_mean
             (filter (\<lambda>w. first_at d \<le> w_at w \<and> w_at w \<le> last_at d) (weathers d)))"
  using assms
  by (simp add: temperature_dates_def air_means_def temperature_dates_loop_eq
      air_means_loop_eq first_at_def last_at_def)

theorem weather_aligned_witness:
  "readings january_store \<noteq> []
   \<and> temperature_dates january_store = Inr [737439]
   \<and> air_means january_store = Inr [Fin 6]"
  using weather_aligned [of january_store]
  by (simp add: january_store_def first_at_def last_at_def)

section \<open>Range violations\<close>

text \<open>
  C8.  For a store with a reading, a lookup one day before the first reading and a lookup
  one day after the last reading both fail the range assertion, for either field.
\<close>

theorem boundary_rejection:
  assumes "readings d \<noteq> []"
  shows "reading tz d (first_at d - 1) en = Inl AssertionError
       \<and> reading tz d (last_at d + 1) en = Inl AssertionError"
  using assms by (simp add: reading_def first_at_def last_at_def)

theorem boundary_rejection_witness:
  "readings january_store \<noteq> []
   \<and> reading utc january_store 737424 Gas = Inl AssertionError
   \<and> reading utc january_store 737457 Gas = Inl AssertionError"
  using boundary_rejection [of january_store utc Gas]
  by (simp add: january_store_def first_at_def last_at_def)

text \<open>
  C10.  When the last reading is at most one day after the first (a single reading
  included), there are no usage dates, both annual estimates raise \<open>IndexError\<close> at
  \<open>usage_dates[0]\<close>, and the report's handler, which catches \<open>AssertionError\<close> only, lets
  it escape with nothing printed.
\<close>

theorem short_store_index_error:
  assumes "readings d \<noteq> []" and "last_at d \<le> first_at d + 1"
  shows "usage_dates d = Inr []
       \<and> average_annual_electricity_consumption tz d = Inl IndexError
       \<and> average_annual_gas_consumption tz d = Inl IndexError
       \<and> report tz d = ([], Some IndexError)"
  using assms
  by (simp add: usage_dates_eq average_annual_electricity_consumption_def
      average_annual_gas_consumption_def report_def handler_def)

theorem short_store_index_error_witness:
  "readings single_store \<noteq> []
   \<and> last_at single_store \<le> first_at single_store + 1
   \<and> average_annual_electricity_consumption utc single_store = Inl IndexError
   \<and> report utc single_store = ([], Some IndexError)"
  using short_store_index_error [of single_store utc]
  by (simp add: single_store_def first_at_def last_at_def)

section \<open>The bracketing pair\<close>

lemma index_of_nth:
  "distinct xs \<Longrightarrow> k < length xs \<Longrightarrow> index_of xs (xs ! k) = Inr k"
proof (induction xs arbitrary: k)
  case Nil
  then show ?case by simp
next
  case (Cons y ys)
  show ?case
  proof (cases k)
    case 0
    then show ?thesis by simp
  next
    case (Suc j)
    with Cons.prems have "j < length ys" "ys ! j \<noteq> y" "distinct ys"
      by auto
    with Cons.IH [of j] Suc show ?thesis
      by auto
  qed
qed

lemma store_distinct: "sorted_wrt (<) (map r_at rs) \<Longrightarrow> distinct rs"
  using strict_sorted_iff [of "map r_at rs"] distinct_map [of r_at rs] by simp

lemma store_nth_mono:
  "sorted_wrt (<) (map r_at rs) \<Longrightarrow> i \<le> j \<Longrightarrow> j < length rs \<Longrightarrow> r_at (rs ! i) \<le> r_at (rs ! j)"
  using sorted_wrt_nth_less [of "(<)" "map r_at rs" i j]
  by (cases "i = j") simp_all

lemma store_nth_less:
  "sorted_wrt (<) (map r_at rs) \<Longrightarrow> i < j \<Longrightarrow> j < length rs \<Longrightarrow> r_at (rs ! i) < r_at (rs ! j)"
  using sorted_wrt_nth_less [of "(<)" "map r_at rs" i j] by simp

lemma reading_between:
  assumes ok: "store_ok d" and i: "Suc i < length (readings d)"
    and lo: "r_at (readings d ! i) < a" and hi: "a \<le> r_at (readings d ! Suc i)"
  shows "reading tz d a en =
           interpolate (ts tz (r_at (readings d ! i))) (ts tz (r_at (readings d ! Suc i)))
             (ts tz a) (get (readings d ! i) en) (get (readings d ! Suc i) en)"
proof -
  let ?rs = "readings d"
  from ok have ne: "?rs \<noteq> []" and srt: "sorted_wrt (<) (map r_at ?rs)"
    by (simp_all add: store_ok_def)
  have first: "r_at (hd ?rs) < a"
    using store_nth_mono [OF srt, of 0 i] i lo ne by (simp add: hd_conv_nth)
  have "Suc i \<le> length ?rs - 1"
    using i by simp
  then have "r_at (?rs ! Suc i) \<le> r_at (?rs ! (length ?rs - 1))"
    using store_nth_mono [OF srt, of "Suc i" "length ?rs - 1"] i by simp
  then have last: "a \<le> r_at (last ?rs)"
    using hi ne by (simp add: last_conv_nth)
  have "\<not> a \<le> r_at (?rs ! j)" if "j < Suc i" for j
    using store_nth_mono [OF srt, of j i] that i lo by simp
  then have found: "find (\<lambda>r. a \<le> r_at r) ?rs = Some (?rs ! Suc i)"
    using i hi by (auto simp: find_Some_iff)
  have idx: "index_of ?rs (?rs ! Suc i) = Inr (Suc i)"
    using index_of_nth [OF store_distinct [OF srt] i] .
  have prev: "getitem ?rs (int (Suc i) - 1) = Inr (?rs ! i)"
    using i by (simp add: getitem_def)
  show ?thesis
    using ne first last found idx prev by (simp add: reading_def)
qed

lemma bracket_exists:
  assumes ok: "store_ok d" and lo: "first_at d < a" and hi: "a \<le> last_at d"
  shows "\<exists>i. Suc i < length (readings d)
           \<and> r_at (readings d ! i) < a \<and> a \<le> r_at (readings d ! Suc i)"
proof -
  let ?rs = "readings d"
  let ?P = "\<lambda>k. k < length ?rs \<and> a \<le> r_at (?rs ! k)"
  from ok have ne: "?rs \<noteq> []"
    by (simp add: store_ok_def)
  then have "?P (length ?rs - 1)"
    using hi by (simp add: last_at_def last_conv_nth)
  then have least: "?P (LEAST k. ?P k)"
    by (rule LeastI)
  define k where "k = (LEAST k. ?P k)"
  from least have k: "k < length ?rs" "a \<le> r_at (?rs ! k)"
    by (simp_all add: k_def)
  have "k \<noteq> 0"
  proof
    assume "k = 0"
    with k lo ne show False
      by (simp add: first_at_def hd_conv_nth)
  qed
  then obtain i where ki: "k = Suc i"
    by (cases k) auto
  have "\<not> ?P i"
    using not_less_Least [of i ?P] ki by (simp add: k_def)
  with k ki have "r_at (?rs ! i) < a"
    by simp
  with k ki show ?thesis
    by auto
qed

lemma reading_first:
  assumes "readings d \<noteq> []" and "first_at d \<le> last_at d"
  shows "reading tz d (first_at d) en = Inr (get (hd (readings d)) en)"
  using assms by (simp add: reading_def first_at_def last_at_def)

lemma store_first_le_last: "store_ok d \<Longrightarrow> first_at d \<le> last_at d"
  using store_nth_mono [of "readings d" 0 "length (readings d) - 1"]
  by (simp add: store_ok_def first_at_def last_at_def hd_conv_nth last_conv_nth)

section \<open>Rounding to a float\<close>

lemma two_powi_pos [simp]: "0 < (2::rat) powi e"
  by simp

lemma two_powi_add: "(2::rat) powi (a + b) = 2 powi a * 2 powi b"
  by (simp add: power_int_add)

lemma two_powi_diff: "(2::rat) powi (a - b) = 2 powi a / 2 powi b"
  by (simp add: power_int_diff)

lemma two_powi_mono: "a \<le> b \<Longrightarrow> (2::rat) powi a \<le> 2 powi b"
  by (rule power_int_increasing) simp_all

lemma two_powi_less_cancel: "(2::rat) powi a < 2 powi b \<Longrightarrow> a < b"
  using two_powi_mono [of b a] by (cases "a < b") auto

lemma bitlen_rat_bounds:
  assumes "0 < p"
  shows "(2::rat) powi (bitlen p - 1) \<le> of_int p" and "of_int p < (2::rat) powi bitlen p"
proof -
  from bitlen_bounds [OF assms]
  have lo: "2 ^ nat (bitlen p - 1) \<le> p" and hi: "p < 2 ^ nat (bitlen p)"
    by simp_all
  have b1: "1 \<le> bitlen p"
    using assms by (simp add: bitlen_alt_def)
  have "(of_int (2 ^ nat (bitlen p - 1)) :: rat) \<le> of_int p"
    using lo by (simp only: of_int_le_iff)
  then show "(2::rat) powi (bitlen p - 1) \<le> of_int p"
    using b1 by (simp add: power_int_nonneg_exp)
  have "(of_int p :: rat) < of_int (2 ^ nat (bitlen p))"
    using hi by (simp only: of_int_less_iff)
  then show "of_int p < (2::rat) powi bitlen p"
    using b1 by (simp add: power_int_nonneg_exp)
qed

lemma ilog2_bounds:
  assumes "x \<noteq> 0"
  shows "2 powi (ilog2 x) \<le> \<bar>x\<bar>" and "\<bar>x\<bar> < 2 powi (ilog2 x + 1)"
proof -
  obtain p q where pq: "quotient_of \<bar>x\<bar> = (p, q)"
    by (cases "quotient_of \<bar>x\<bar>")
  then have q: "0 < q" and x: "\<bar>x\<bar> = of_int p / of_int q"
    by (simp_all add: quotient_of_denom_pos quotient_of_div)
  from assms have "0 < \<bar>x\<bar>" by simp
  with x q have p: "0 < p"
    by (simp add: zero_less_divide_iff)
  define d where "d = bitlen p - bitlen q"
  have il: "ilog2 x = (if 2 powi d \<le> \<bar>x\<bar> then d else d - 1)"
    by (simp add: ilog2_def pq d_def Let_def)
  have qpos: "(0::rat) < of_int q" using q by simp
  have up: "\<bar>x\<bar> < 2 powi (d + 1)"
  proof -
    have "of_int p < (2::rat) powi bitlen p"
      by (rule bitlen_rat_bounds [OF p])
    also have "\<dots> = 2 powi (d + 1) * 2 powi (bitlen q - 1)"
      by (simp add: d_def flip: two_powi_add)
    also have "\<dots> \<le> 2 powi (d + 1) * of_int q"
      using bitlen_rat_bounds(1) [OF q] by (simp add: mult_left_mono)
    finally show ?thesis
      using qpos by (simp add: x pos_divide_less_eq)
  qed
  have lo: "2 powi (d - 1) \<le> \<bar>x\<bar>"
  proof -
    have "2 powi (d - 1) * of_int q \<le> 2 powi (d - 1) * (2::rat) powi bitlen q"
      using bitlen_rat_bounds(2) [OF q] by (simp add: mult_left_mono)
    also have "\<dots> = 2 powi (bitlen p - 1)"
      by (simp add: d_def flip: two_powi_add)
    also have "\<dots> \<le> of_int p"
      by (rule bitlen_rat_bounds [OF p])
    finally show ?thesis
      using qpos by (simp add: x pos_le_divide_eq)
  qed
  show "2 powi (ilog2 x) \<le> \<bar>x\<bar>"
    using lo by (simp add: il)
  show "\<bar>x\<bar> < 2 powi (ilog2 x + 1)"
    using up by (auto simp: il not_le)
qed

lemma ilog2_unique:
  assumes "2 powi e \<le> \<bar>x\<bar>" "\<bar>x\<bar> < 2 powi (e + 1)"
  shows "ilog2 x = e"
proof -
  have "(0::rat) < 2 powi e"
    by simp
  then have "0 < \<bar>x\<bar>"
    using assms(1) by (rule less_le_trans)
  then have nz: "x \<noteq> 0"
    by simp
  have "(2::rat) powi e < 2 powi (ilog2 x + 1)"
    using assms(1) ilog2_bounds(2) [OF nz] by simp
  then have a: "e < ilog2 x + 1" by (rule two_powi_less_cancel)
  have "(2::rat) powi (ilog2 x) < 2 powi (e + 1)"
    using assms(2) ilog2_bounds(1) [OF nz] by simp
  then have "ilog2 x < e + 1" by (rule two_powi_less_cancel)
  with a show ?thesis by simp
qed

lemma ilog2_minus [simp]: "ilog2 (- x) = ilog2 x"
  by (simp add: ilog2_def)

lemma rhe_cases: "round_half_even q = \<lfloor>q\<rfloor> \<or> round_half_even q = \<lfloor>q\<rfloor> + 1"
  by (simp add: round_half_even_def Let_def)

lemma rhe_of_int [simp]: "round_half_even (of_int n) = n"
  by (simp add: round_half_even_def Let_def)

lemma rhe_ge_int: "of_int n \<le> q \<Longrightarrow> n \<le> round_half_even q"
proof -
  assume "of_int n \<le> q"
  then have "n \<le> \<lfloor>q\<rfloor>" by (simp add: le_floor_iff)
  with rhe_cases [of q] show ?thesis by auto
qed

lemma rhe_le_int: "q \<le> of_int n \<Longrightarrow> round_half_even q \<le> n"
proof (cases "q = of_int \<lfloor>q\<rfloor>")
  case True
  assume "q \<le> of_int n"
  with True have "\<lfloor>q\<rfloor> \<le> n"
    by (metis of_int_le_iff)
  moreover have "round_half_even q = \<lfloor>q\<rfloor>"
    using True by (metis rhe_of_int)
  ultimately show ?thesis by simp
next
  case False
  assume le: "q \<le> of_int n"
  have "of_int \<lfloor>q\<rfloor> \<le> q"
    by (rule of_int_floor_le)
  with False have "of_int \<lfloor>q\<rfloor> < q"
    by (metis order_less_le)
  with le have "(of_int \<lfloor>q\<rfloor> :: rat) < of_int n" by simp
  then have "\<lfloor>q\<rfloor> < n" by (simp only: of_int_less_iff)
  with rhe_cases [of q] show ?thesis by auto
qed

lemma rhe_minus: "round_half_even (- q) = - round_half_even q"
proof (cases "q = of_int \<lfloor>q\<rfloor>")
  case True
  then have "round_half_even q = \<lfloor>q\<rfloor>" by (metis rhe_of_int)
  moreover have "- q = of_int (- \<lfloor>q\<rfloor>)" using True by simp
  then have "round_half_even (- q) = - \<lfloor>q\<rfloor>" by (metis rhe_of_int)
  ultimately show ?thesis by simp
next
  case False
  define f where "f = \<lfloor>q\<rfloor>"
  define r where "r = q - of_int f"
  have "of_int \<lfloor>q\<rfloor> \<le> q" and up: "q < of_int (\<lfloor>q\<rfloor> + 1)"
    using floor_correct [of q] by blast+
  with False have "of_int \<lfloor>q\<rfloor> < q"
    by (metis order_less_le)
  with up have r: "0 < r" "r < 1"
    unfolding r_def f_def by (simp_all only: of_int_add of_int_1)
  have fl: "\<lfloor>- q\<rfloor> = - f - 1"
    using r by (intro floor_unique) (simp_all add: r_def)
  have r': "- q - of_int (- f - 1) = 1 - r"
    by (simp add: r_def)
  have ev: "even (- f - 1) \<longleftrightarrow> odd f" by simp
  show ?thesis
    unfolding round_half_even_def Let_def fl r' ev
    unfolding f_def [symmetric] r_def [symmetric]
    using r by auto
qed

lemma rhe_nonneg: "0 \<le> q \<Longrightarrow> 0 \<le> round_half_even q"
  using rhe_ge_int [of 0 q] by simp

lemma grid_0 [simp]: "grid 0"
  unfolding grid_def by (rule exI [of _ 0], rule exI [of _ 0]) simp

lemma grid_minus [simp]: "grid (- x) = grid x"
proof -
  have "grid (- y)" if "grid y" for y
  proof -
    from that obtain m e where "y = of_int m * 2 powi e" "\<bar>m\<bar> < 2 ^ 53" "- 1074 \<le> e"
      by (auto simp: grid_def)
    then have "- y = of_int (- m) * 2 powi e \<and> \<bar>- m\<bar> < 2 ^ 53 \<and> - 1074 \<le> e"
      by simp
    then show ?thesis
      unfolding grid_def by blast
  qed
  from this [of x] this [of "- x"] show ?thesis by auto
qed

lemma round53_0 [simp]: "round53 0 = 0"
  by (simp add: round53_def)

lemma round53_minus: "round53 (- x) = - round53 x"
  by (simp add: round53_def Let_def rhe_minus)

lemma round53_unfold:
  "x \<noteq> 0 \<Longrightarrow> E = max (ilog2 x - 52) (- 1074) \<Longrightarrow>
     round53 x = of_int (round_half_even (x / 2 powi E)) * 2 powi E"
  by (simp add: round53_def Let_def)

lemma of_int_abs_less_pow: "\<bar>m\<bar> < 2 ^ n \<Longrightarrow> \<bar>of_int m :: rat\<bar> < 2 ^ n"
proof -
  assume "\<bar>m\<bar> < 2 ^ n"
  then have "(of_int \<bar>m\<bar> :: rat) < of_int (2 ^ n)"
    by (simp only: of_int_less_iff)
  then show ?thesis by simp
qed

lemma grid_ilog2:
  assumes "x = of_int m * 2 powi e" "\<bar>m\<bar> < 2 ^ 53" "x \<noteq> 0"
  shows "ilog2 x - 52 \<le> e"
proof -
  have "2 powi (ilog2 x) \<le> \<bar>x\<bar>"
    by (rule ilog2_bounds [OF assms(3)])
  also have "\<bar>x\<bar> = \<bar>of_int m\<bar> * 2 powi e"
    by (simp add: assms(1) abs_mult)
  also have "\<dots> < 2 ^ 53 * 2 powi e"
    using of_int_abs_less_pow [OF assms(2)] by (simp add: mult_strict_right_mono)
  also have "\<dots> = 2 powi (e + 53)"
    by (simp add: two_powi_add)
  finally have "ilog2 x < e + 53"
    by (rule two_powi_less_cancel)
  then show ?thesis by simp
qed

lemma two_powi_nat: "0 \<le> k \<Longrightarrow> (2::rat) powi k = of_int (2 ^ nat k)"
  by (simp add: power_int_nonneg_exp)

lemma scale_to_int:
  assumes "E \<le> e"
  shows "of_int m * 2 powi e / 2 powi E = (of_int (m * 2 ^ nat (e - E)) :: rat)"
proof -
  have "of_int m * 2 powi e / 2 powi E = of_int m * (2::rat) powi (e - E)"
    by (simp add: two_powi_diff)
  also have "\<dots> = of_int m * of_int (2 ^ nat (e - E))"
    using assms by (subst two_powi_nat) simp_all
  finally show ?thesis by simp
qed

lemma round53_grid_id:
  assumes "grid x"
  shows "round53 x = x"
proof (cases "x = 0")
  case True
  then show ?thesis by simp
next
  case False
  from assms obtain m e where x: "x = of_int m * 2 powi e"
    and m: "\<bar>m\<bar> < 2 ^ 53" and e: "- 1074 \<le> e"
    by (auto simp: grid_def)
  define E where "E = max (ilog2 x - 52) (- 1074)"
  have Ee: "E \<le> e"
    using grid_ilog2 [OF x m False] e by (simp add: E_def)
  have q: "x / 2 powi E = of_int (m * 2 ^ nat (e - E))"
    unfolding x by (rule scale_to_int [OF Ee])
  have "round53 x = of_int (m * 2 ^ nat (e - E)) * 2 powi E"
    by (simp add: round53_unfold [OF False E_def] q del: of_int_mult of_int_power)
  also have "\<dots> = x / 2 powi E * 2 powi E"
    by (simp only: q)
  also have "\<dots> = x"
    by simp
  finally show ?thesis .
qed

lemma q_less:
  assumes "0 < x" "E = max (ilog2 x - 52) (- 1074)"
  shows "x / 2 powi E < 2 ^ 53"
proof -
  from assms(1) have nz: "x \<noteq> 0" by simp
  have "x < 2 powi (ilog2 x + 1)"
    using ilog2_bounds(2) [OF nz] assms(1) by simp
  also have "\<dots> \<le> 2 powi (E + 53)"
    by (rule two_powi_mono) (simp add: assms(2))
  also have "\<dots> = 2 ^ 53 * 2 powi E"
    by (simp add: two_powi_add)
  finally show ?thesis
    by (simp add: pos_divide_less_eq)
qed

lemma q_ge:
  assumes "0 < x" "E = ilog2 x - 52"
  shows "2 ^ 52 \<le> x / 2 powi E"
proof -
  from assms(1) have nz: "x \<noteq> 0" by simp
  have "2 ^ 52 * 2 powi E = (2::rat) powi (ilog2 x)"
    by (simp add: assms(2) flip: two_powi_add power_int_numeral)
  also have "\<dots> \<le> x"
    using ilog2_bounds(1) [OF nz] assms(1) by simp
  finally show ?thesis
    by (simp add: pos_le_divide_eq)
qed

lemma grid_below_binade:
  assumes "f = of_int m * 2 powi e" "\<bar>m\<bar> < 2 ^ 53" "e < E"
  shows "(f::rat) < 2 powi (E + 52)"
proof -
  have "f \<le> \<bar>of_int m\<bar> * 2 powi e"
    unfolding assms(1) by (rule mult_right_mono) simp_all
  also have "\<dots> < 2 ^ 53 * 2 powi e"
    using of_int_abs_less_pow [OF assms(2)] by (simp add: mult_strict_right_mono)
  also have "\<dots> = 2 powi (e + 53)"
    by (simp add: two_powi_add)
  also have "\<dots> \<le> 2 powi (E + 52)"
    by (rule two_powi_mono) (use assms(3) in simp)
  finally show ?thesis .
qed

lemma round53_le_pos:
  assumes "grid f" "0 < x" "x \<le> f"
  shows "round53 x \<le> f"
proof -
  from assms(1) obtain m e where f: "f = of_int m * 2 powi e"
    and m: "\<bar>m\<bar> < 2 ^ 53" and e: "- 1074 \<le> e"
    by (auto simp: grid_def)
  from assms(2) have nz: "x \<noteq> 0" by simp
  define E where "E = max (ilog2 x - 52) (- 1074)"
  show ?thesis
  proof (cases "E \<le> e")
    case True
    define N where "N = m * 2 ^ nat (e - E)"
    have fN: "f / 2 powi E = of_int N"
      unfolding f N_def by (rule scale_to_int [OF True])
    have "x / 2 powi E \<le> f / 2 powi E"
      using assms(3) by (simp add: divide_right_mono)
    then have "round_half_even (x / 2 powi E) \<le> N"
      unfolding fN by (rule rhe_le_int)
    then have "(of_int (round_half_even (x / 2 powi E)) :: rat) \<le> of_int N"
      by (simp only: of_int_le_iff)
    then have "round53 x \<le> of_int N * 2 powi E"
      unfolding round53_unfold [OF nz E_def] by (rule mult_right_mono) simp
    also have "\<dots> = f"
      by (simp flip: fN)
    finally show ?thesis .
  next
    case False
    then have eE: "e < E" by simp
    with e have E: "E = ilog2 x - 52"
      by (simp add: E_def max_def split: if_splits)
    have "f < 2 powi (E + 52)"
      by (rule grid_below_binade [OF f m eE])
    also have "\<dots> \<le> x"
      using ilog2_bounds(1) [OF nz] assms(2) by (simp add: E)
    finally show ?thesis
      using assms(3) by simp
  qed
qed

lemma round53_ge_pos:
  assumes "grid f" "0 < f" "f \<le> x"
  shows "f \<le> round53 x"
proof -
  from assms(1) obtain m e where f: "f = of_int m * 2 powi e"
    and m: "\<bar>m\<bar> < 2 ^ 53" and e: "- 1074 \<le> e"
    by (auto simp: grid_def)
  from assms have xpos: "0 < x" by simp
  then have nz: "x \<noteq> 0" by simp
  define E where "E = max (ilog2 x - 52) (- 1074)"
  show ?thesis
  proof (cases "E \<le> e")
    case True
    define N where "N = m * 2 ^ nat (e - E)"
    have fN: "f / 2 powi E = of_int N"
      unfolding f N_def by (rule scale_to_int [OF True])
    have "f / 2 powi E \<le> x / 2 powi E"
      using assms(3) by (simp add: divide_right_mono)
    then have "N \<le> round_half_even (x / 2 powi E)"
      unfolding fN by (rule rhe_ge_int)
    then have "(of_int N :: rat) \<le> of_int (round_half_even (x / 2 powi E))"
      by (simp only: of_int_le_iff)
    then have "of_int N * 2 powi E \<le> round53 x"
      unfolding round53_unfold [OF nz E_def] by (rule mult_right_mono) simp
    moreover have "of_int N * 2 powi E = f"
      by (simp flip: fN)
    ultimately show ?thesis by simp
  next
    case False
    then have eE: "e < E" by simp
    with e have E: "E = ilog2 x - 52"
      by (simp add: E_def max_def split: if_splits)
    have "(of_int (2 ^ 52) :: rat) \<le> x / 2 powi E"
      using q_ge [OF xpos E] by simp
    then have "2 ^ 52 \<le> round_half_even (x / 2 powi E)"
      by (rule rhe_ge_int)
    then have "(of_int (2 ^ 52) :: rat) \<le> of_int (round_half_even (x / 2 powi E))"
      by (simp only: of_int_le_iff)
    then have "of_int (2 ^ 52) * 2 powi E \<le> round53 x"
      unfolding round53_unfold [OF nz E_def] by (rule mult_right_mono) simp
    moreover have "(of_int (2 ^ 52) :: rat) * 2 powi E = 2 powi (E + 52)"
      by (simp add: two_powi_add)
    moreover have "f < 2 powi (E + 52)"
      by (rule grid_below_binade [OF f m eE])
    ultimately show ?thesis by simp
  qed
qed

lemma round53_nonneg: "0 \<le> x \<Longrightarrow> 0 \<le> round53 x"
proof (cases "x = 0")
  case True
  then show ?thesis by simp
next
  case False
  assume "0 \<le> x"
  then have "0 \<le> round_half_even (x / 2 powi max (ilog2 x - 52) (- 1074))"
    by (intro rhe_nonneg) simp
  then show ?thesis
    by (simp add: round53_unfold [OF False refl])
qed

lemma round53_le:
  assumes "grid f" "x \<le> f"
  shows "round53 x \<le> f"
proof -
  consider "0 < x" | "x \<le> 0" "0 \<le> f" | "x \<le> 0" "f < 0"
    by linarith
  then show ?thesis
  proof cases
    case 1
    then show ?thesis by (rule round53_le_pos [OF assms(1) _ assms(2)])
  next
    case 2
    have "0 \<le> round53 (- x)"
      using 2 by (intro round53_nonneg) simp
    with 2 show ?thesis
      by (simp add: round53_minus)
  next
    case 3
    have "- f \<le> round53 (- x)"
      using assms 3 by (intro round53_ge_pos) simp_all
    then show ?thesis
      by (simp add: round53_minus)
  qed
qed

lemma round53_ge:
  assumes "grid f" "f \<le> x"
  shows "f \<le> round53 x"
proof -
  have "round53 (- x) \<le> - f"
    using assms by (intro round53_le) simp_all
  then show ?thesis
    by (simp add: round53_minus)
qed

lemma ilog2_0 [simp]: "ilog2 0 = - 2"
  by code_simp

lemma ilog2_less_iff:
  assumes "x \<noteq> 0"
  shows "ilog2 x < e \<longleftrightarrow> \<bar>x\<bar> < 2 powi e"
proof
  assume "ilog2 x < e"
  then have "(2::rat) powi (ilog2 x + 1) \<le> 2 powi e"
    by (intro two_powi_mono) simp
  with ilog2_bounds(2) [OF assms] show "\<bar>x\<bar> < 2 powi e"
    by simp
next
  assume "\<bar>x\<bar> < 2 powi e"
  with ilog2_bounds(1) [OF assms] have "(2::rat) powi (ilog2 x) < 2 powi e"
    by simp
  then show "ilog2 x < e"
    by (rule two_powi_less_cancel)
qed

lemma ilog2_lessI: "\<bar>x\<bar> < 2 ^ n \<Longrightarrow> ilog2 x < int n"
  using ilog2_less_iff [of x "int n"] by (cases "x = 0") simp_all

lemma gridI: "x = of_int m * 2 powi e \<Longrightarrow> \<bar>m\<bar> < 2 ^ 53 \<Longrightarrow> - 1074 \<le> e \<Longrightarrow> grid x"
  unfolding grid_def by blast

lemma round53_grid_pos:
  assumes "0 < x"
  shows "grid (round53 x)"
proof -
  from assms have nz: "x \<noteq> 0" by simp
  define E where "E = max (ilog2 x - 52) (- 1074)"
  define n where "n = round_half_even (x / 2 powi E)"
  have r: "round53 x = of_int n * 2 powi E"
    by (simp add: round53_unfold [OF nz E_def] n_def)
  have E: "- 1074 \<le> E"
    by (simp add: E_def)
  have "x / 2 powi E \<le> of_int (2 ^ 53)"
    using q_less [OF assms E_def] by simp
  then have hi: "n \<le> 2 ^ 53"
    unfolding n_def by (rule rhe_le_int)
  have lo: "0 \<le> n"
    unfolding n_def using assms by (intro rhe_nonneg) simp
  show ?thesis
  proof (cases "n = 2 ^ 53")
    case True
    have "round53 x = of_int (2 ^ 52) * 2 powi (E + 1)"
      by (simp add: r True two_powi_add)
    then show ?thesis
      by (rule gridI) (use E in simp_all)
  next
    case False
    with hi lo have "\<bar>n\<bar> < 2 ^ 53" by simp
    with r show ?thesis
      using E by (rule gridI)
  qed
qed

lemma round53_grid: "grid (round53 x)"
proof -
  consider "0 < x" | "x = 0" | "0 < - x"
    by linarith
  then show ?thesis
  proof cases
    case 1
    then show ?thesis by (rule round53_grid_pos)
  next
    case 2
    then show ?thesis by simp
  next
    case 3
    then have "grid (round53 (- x))" by (rule round53_grid_pos)
    then show ?thesis by (simp add: round53_minus)
  qed
qed

lemma is_double_grid: "is_double x \<Longrightarrow> grid x"
  using round53_grid [of x] by (simp add: is_double_def)

lemma grid_of_int:
  assumes "\<bar>n\<bar> \<le> 2 ^ 53"
  shows "grid (of_int n)"
proof (cases "\<bar>n\<bar> = 2 ^ 53")
  case True
  then consider "n = 2 ^ 53" | "n = - (2 ^ 53)"
    by (auto simp: abs_if split: if_splits)
  then show ?thesis
  proof cases
    case 1
    have "(of_int n :: rat) = of_int (2 ^ 52) * 2 powi 1"
      by (simp add: 1)
    then show ?thesis by (rule gridI) simp_all
  next
    case 2
    have "(of_int n :: rat) = of_int (- (2 ^ 52)) * 2 powi 1"
      by (simp add: 2)
    then show ?thesis by (rule gridI) simp_all
  qed
next
  case False
  with assms have "\<bar>n\<bar> < 2 ^ 53" by simp
  then show ?thesis
    by (intro gridI [of _ n 0]) simp_all
qed

lemma grid_pow2:
  assumes "- 1074 \<le> e"
  shows "grid (2 powi e)"
proof -
  have "(2::rat) powi e = of_int 1 * 2 powi e" by simp
  then show ?thesis by (rule gridI) (use assms in simp_all)
qed

lemma round53_abs_le:
  assumes "grid f" "\<bar>x\<bar> \<le> f"
  shows "\<bar>round53 x\<bar> \<le> f"
proof -
  have "round53 x \<le> f"
    using assms by (intro round53_le) simp_all
  moreover have "- f \<le> round53 x"
    using assms by (intro round53_ge) simp_all
  ultimately show ?thesis by simp
qed

lemma to_double_Fin: "\<bar>round53 x\<bar> < 2 ^ 1024 \<Longrightarrow> to_double x = Fin (round53 x)"
  using ilog2_lessI [of "round53 x" 1024] by (simp add: to_double_def Let_def)

lemma pow2_nat_grid: "n \<le> 1023 \<Longrightarrow> grid (2 ^ n)"
proof -
  assume "n \<le> 1023"
  have "grid (2 powi int n)" by (rule grid_pow2) simp
  then show ?thesis by simp
qed

lemma to_double_small:
  assumes "\<bar>x\<bar> \<le> 2 ^ n" "n \<le> 1023"
  shows "to_double x = Fin (round53 x)"
proof -
  have "\<bar>round53 x\<bar> \<le> 2 ^ n"
    using pow2_nat_grid [OF assms(2)] assms(1) by (rule round53_abs_le)
  also have "(2::rat) ^ n < 2 ^ 1024"
    by (rule power_strict_increasing) (use assms(2) in simp_all)
  finally show ?thesis by (rule to_double_Fin)
qed

section \<open>The arithmetic of \<open>interpolate\<close>\<close>

lemma grid_1 [simp]: "grid 1"
  using grid_pow2 [of 0] by simp

lemma round53_1 [simp]: "round53 1 = 1"
  by (rule round53_grid_id) simp

lemma int_truediv_unit:
  assumes "0 \<le> a" "a \<le> b" "0 < b"
  shows "int_truediv a b = Inr (Fin (round53 (of_int a / of_int b)))"
    and "0 \<le> round53 (of_int a / of_int b)"
    and "round53 (of_int a / of_int b) \<le> 1"
proof -
  let ?x = "of_int a / of_int b :: rat"
  have x: "0 \<le> ?x" "?x \<le> 1"
    using assms by simp_all
  then have "\<bar>?x\<bar> \<le> 2 ^ 0" by simp
  then have "to_double ?x = Fin (round53 ?x)"
    by (rule to_double_small) simp
  then show "int_truediv a b = Inr (Fin (round53 ?x))"
    using assms(3) by (simp add: int_truediv_def)
  show "0 \<le> round53 ?x"
    using x(1) by (rule round53_nonneg)
  show "round53 ?x \<le> 1"
    using x(2) by (intro round53_le) simp_all
qed

lemma int_truediv_self: "b \<noteq> 0 \<Longrightarrow> int_truediv b b = Inr (Fin 1)"
proof -
  assume b: "b \<noteq> 0"
  have "to_double 1 = Fin (round53 1)"
    by (rule to_double_small [of _ 0]) simp_all
  with b show ?thesis
    by (simp add: int_truediv_def)
qed

lemma float_of_int_ok:
  assumes "\<bar>n\<bar> \<le> 2 ^ 54"
  shows "float_of_int n = Inr (Fin (round53 (of_int n)))"
proof -
  have "(of_int \<bar>n\<bar> :: rat) \<le> of_int (2 ^ 54)"
    using assms by (simp only: of_int_le_iff)
  then have "\<bar>of_int n :: rat\<bar> \<le> 2 ^ 54" by simp
  then have "to_double (of_int n) = Fin (round53 (of_int n))"
    by (rule to_double_small) simp
  then show ?thesis
    by (simp add: float_of_int_def)
qed

lemma float_of_int_exact:
  assumes "\<bar>n\<bar> \<le> 2 ^ 53"
  shows "float_of_int n = Inr (Fin (of_int n))"
proof -
  from assms have "\<bar>n\<bar> \<le> 2 ^ 54" by simp
  then show ?thesis
    by (simp add: float_of_int_ok round53_grid_id [OF grid_of_int [OF assms]])
qed

lemma float_of_int_cases:
  "(\<exists>x. float_of_int n = Inr x) \<or> float_of_int n = Inl OverflowError"
  by (simp add: float_of_int_def split: pyfloat.split)

lemma int_truediv_cases:
  "(\<exists>x. int_truediv a b = Inr x) \<or> int_truediv a b = Inl OverflowError
     \<or> (b = 0 \<and> int_truediv a b = Inl ZeroDivisionError)"
  by (simp add: int_truediv_def split: pyfloat.split)

lemma ebind_assoc: "ebind (ebind m f) g = ebind m (\<lambda>x. ebind (f x) g)"
  by (cases m) simp_all

lemma interpolate_gas:
  "interpolate t0 t1 t (PFloat g0) (PFloat g1) =
     ebind (int_truediv (t - t0) (t1 - t0)) (\<lambda>p. Inr (PFloat (fadd g0 (fmul (fsub g1 g0) p))))"
  by (simp add: interpolate_def)

lemma interpolate_electricity:
  "interpolate t0 t1 t (PInt e0) (PInt e1) =
     ebind (int_truediv (t - t0) (t1 - t0)) (\<lambda>p.
     ebind (float_of_int (e1 - e0)) (\<lambda>x.
     ebind (float_of_int e0) (\<lambda>y. Inr (PFloat (fadd y (fmul x p))))))"
  by (simp add: interpolate_def ebind_assoc)

lemma interpolate_no_zero_division:
  assumes "t0 \<noteq> t1"
  shows "interpolate t0 t1 t (get r0 en) (get r1 en) \<noteq> Inl ZeroDivisionError"
proof -
  have b: "t1 - t0 \<noteq> 0" using assms by simp
  show ?thesis
  proof (cases en)
    case Electricity
    show ?thesis
      using int_truediv_cases [of "t - t0" "t1 - t0"]
        float_of_int_cases [of "electricity r1 - electricity r0"]
        float_of_int_cases [of "electricity r0"] b
      by (auto simp: Electricity interpolate_electricity)
  next
    case Gas
    show ?thesis
      using int_truediv_cases [of "t - t0" "t1 - t0"] b
      by (auto simp: Gas interpolate_gas)
  qed
qed

lemma interpolate_ok:
  assumes "t0 < t" "t \<le> t1" "\<bar>electricity r0\<bar> \<le> 2 ^ 53" "\<bar>electricity r1\<bar> \<le> 2 ^ 53"
  shows "\<exists>x. interpolate t0 t1 t (get r0 en) (get r1 en) = Inr (PFloat x)"
proof -
  have p: "int_truediv (t - t0) (t1 - t0) = Inr (Fin (round53 (of_int (t - t0) / of_int (t1 - t0))))"
    using assms(1,2) by (intro int_truediv_unit) simp_all
  show ?thesis
  proof (cases en)
    case Electricity
    have "\<bar>electricity r1 - electricity r0\<bar> \<le> 2 ^ 54"
      using assms(3,4) by simp
    then show ?thesis
      using assms(3) by (simp add: Electricity interpolate_electricity p float_of_int_ok float_of_int_exact)
  next
    case Gas
    then show ?thesis
      by (simp add: interpolate_gas p)
  qed
qed

section \<open>Lookups and usage\<close>

lemma strict_mono_utc: "strict_mono (ts utc)"
  by (simp add: strict_mono_def ts_def utc_def)

lemma reading_above:
  "readings d \<noteq> [] \<Longrightarrow> last_at d < a \<Longrightarrow> reading tz d a en = Inl AssertionError"
  by (simp add: reading_def last_at_def)

lemma reading_below:
  "readings d \<noteq> [] \<Longrightarrow> a < first_at d \<Longrightarrow> reading tz d a en = Inl AssertionError"
  by (simp add: reading_def first_at_def)

lemma meter_ok_nth: "meter_ok d \<Longrightarrow> i < length (readings d) \<Longrightarrow> \<bar>electricity (readings d ! i)\<bar> \<le> 2 ^ 53"
  by (simp add: meter_ok_def)

lemma reading_float:
  assumes ok: "store_ok d" and tz: "strict_mono (ts tz)" and m: "meter_ok d"
    and lo: "first_at d < a" and hi: "a \<le> last_at d"
  shows "\<exists>x. reading tz d a en = Inr (PFloat x)"
proof -
  from bracket_exists [OF ok lo hi] obtain i where i: "Suc i < length (readings d)"
    and b: "r_at (readings d ! i) < a" "a \<le> r_at (readings d ! Suc i)"
    by blast
  have t: "ts tz (r_at (readings d ! i)) < ts tz a" "ts tz a \<le> ts tz (r_at (readings d ! Suc i))"
    using b tz by (simp_all add: strict_mono_less strict_mono_less_eq)
  have e: "\<bar>electricity (readings d ! i)\<bar> \<le> 2 ^ 53" "\<bar>electricity (readings d ! Suc i)\<bar> \<le> 2 ^ 53"
    using meter_ok_nth [OF m, of i] meter_ok_nth [OF m, of "Suc i"] i by simp_all
  show ?thesis
    unfolding reading_between [OF ok i b]
    by (rule interpolate_ok [OF t e])
qed

lemma reading_gas_float:
  assumes ok: "store_ok d" and tz: "strict_mono (ts tz)"
    and lo: "first_at d < a" and hi: "a \<le> last_at d"
  shows "\<exists>x. reading tz d a Gas = Inr (PFloat x)"
proof -
  from bracket_exists [OF ok lo hi] obtain i where i: "Suc i < length (readings d)"
    and b: "r_at (readings d ! i) < a" "a \<le> r_at (readings d ! Suc i)"
    by blast
  let ?t0 = "ts tz (r_at (readings d ! i))" and ?t1 = "ts tz (r_at (readings d ! Suc i))"
  have t: "?t0 < ts tz a" "ts tz a \<le> ?t1"
    using b tz by (simp_all add: strict_mono_less strict_mono_less_eq)
  have "int_truediv (ts tz a - ?t0) (?t1 - ?t0)
      = Inr (Fin (round53 (of_int (ts tz a - ?t0) / of_int (?t1 - ?t0))))"
    using t by (intro int_truediv_unit) simp_all
  then show ?thesis
    unfolding reading_between [OF ok i b] by (simp add: interpolate_gas)
qed

lemma reading_ok:
  assumes ok: "store_ok d" and tz: "strict_mono (ts tz)" and m: "meter_ok d"
    and lo: "first_at d \<le> a" and hi: "a \<le> last_at d"
  shows "\<exists>v. reading tz d a en = Inr v \<and> as_float v \<noteq> Inl OverflowError"
proof (cases "a = first_at d")
  case True
  from ok have ne: "readings d \<noteq> []"
    by (simp add: store_ok_def)
  have r: "reading tz d a en = Inr (get (hd (readings d)) en)"
    unfolding True using ne store_first_le_last [OF ok] by (rule reading_first)
  have "\<bar>electricity (hd (readings d))\<bar> \<le> 2 ^ 53"
    using m ne by (simp add: meter_ok_def)
  then have "as_float (get (hd (readings d)) en) \<noteq> Inl OverflowError"
    by (cases en) (simp_all add: float_of_int_exact)
  with r show ?thesis by simp
next
  case False
  with lo have "first_at d < a" by simp
  from reading_float [OF ok tz m this hi, of en] show ?thesis
    by auto
qed

lemma py_sub_float:
  assumes "as_float y \<noteq> Inl OverflowError"
  shows "\<exists>z. py_sub (PFloat x) y = Inr (PFloat z)"
proof (cases y)
  case (PInt n)
  with assms float_of_int_cases [of n] show ?thesis by auto
next
  case (PFloat g)
  then show ?thesis by simp
qed

text \<open>
  C5.  In a store satisfying the invariants, a usage query at a date \<open>d\<close> with
  \<open>first.at < d \<le> last.at\<close> is the difference of the lookups at \<open>d\<close> and at the day before:
  the two lookups are made in this order and their results subtracted, an exception of
  either being the query's.  Where the timestamps increase with the date and the meter
  readings are ints a float holds, both lookups and the subtraction return values.  At any
  other date the query fails the range assertion.
\<close>

theorem usage_is_difference:
  assumes "store_ok d"
  shows "(first_at d < a \<and> a \<le> last_at d \<longrightarrow>
            usage tz d a en =
              ebind (reading tz d a en) (\<lambda>x. ebind (reading tz d (a - 1) en) (\<lambda>y. py_sub x y))
          \<and> (strict_mono (ts tz) \<and> meter_ok d \<longrightarrow>
               (\<exists>x y v. reading tz d a en = Inr x \<and> reading tz d (a - 1) en = Inr y
                  \<and> py_sub x y = Inr v \<and> usage tz d a en = Inr v)))
       \<and> (\<not> (first_at d < a \<and> a \<le> last_at d) \<longrightarrow> usage tz d a en = Inl AssertionError)"
proof -
  from assms have ne: "readings d \<noteq> []"
    by (simp add: store_ok_def)
  have out: "usage tz d a en = Inl AssertionError" if "\<not> (first_at d < a \<and> a \<le> last_at d)"
    using ne that by (auto simp: usage_def first_at_def last_at_def)
  have eq: "usage tz d a en =
      ebind (reading tz d a en) (\<lambda>x. ebind (reading tz d (a - 1) en) (\<lambda>y. py_sub x y))"
    if "first_at d < a" "a \<le> last_at d"
    using ne that by (simp add: usage_def first_at_def last_at_def)
  have run: "\<exists>x y v. reading tz d a en = Inr x \<and> reading tz d (a - 1) en = Inr y
      \<and> py_sub x y = Inr v \<and> usage tz d a en = Inr v"
    if r: "first_at d < a" "a \<le> last_at d" and tz: "strict_mono (ts tz)" and m: "meter_ok d"
  proof -
    from reading_float [OF assms tz m r] obtain x where x: "reading tz d a en = Inr (PFloat x)"
      by blast
    from r have "first_at d \<le> a - 1" "a - 1 \<le> last_at d" by simp_all
    from reading_ok [OF assms tz m this] obtain y
      where y: "reading tz d (a - 1) en = Inr y" "as_float y \<noteq> Inl OverflowError"
      by blast
    from py_sub_float [OF y(2)] obtain z where z: "py_sub (PFloat x) y = Inr (PFloat z)"
      by blast
    show ?thesis
      using x y(1) z by (simp add: eq [OF r])
  qed
  show ?thesis
    using out eq run by blast
qed

theorem usage_is_difference_witness:
  "store_ok january_store \<and> first_at january_store < 737440 \<and> 737440 \<le> last_at january_store
   \<and> strict_mono (ts utc) \<and> meter_ok january_store
   \<and> \<not> (first_at january_store < 737425 \<and> 737425 \<le> last_at january_store)
   \<and> usage utc january_store 737425 Electricity = Inl AssertionError
   \<and> reading utc january_store 737440 Electricity
        = Inr (PFloat (Fin (2305427606627097 / 2199023255552)))
   \<and> reading utc january_store 737439 Electricity
        = Inr (PFloat (Fin (4596667966444181 / 4398046511104)))
   \<and> usage utc january_store 737440 Electricity
        = Inr (PFloat (Fin (14187246810013 / 4398046511104)))"
proof -
  have s: "store_ok january_store" "meter_ok january_store"
    by (simp_all add: store_ok_def meter_ok_def january_store_def)
  have b: "first_at january_store = 737425" "last_at january_store = 737456"
    by (simp_all add: first_at_def last_at_def january_store_def)
  have r1: "reading utc january_store 737440 Electricity
      = Inr (PFloat (Fin (2305427606627097 / 2199023255552)))"
    by code_simp
  have r2: "reading utc january_store 737439 Electricity
      = Inr (PFloat (Fin (4596667966444181 / 4398046511104)))"
    by code_simp
  have sub: "fsub (Fin (2305427606627097 / 2199023255552))
      (Fin (4596667966444181 / 4398046511104))
      = Fin (14187246810013 / 4398046511104)"
    by code_simp
  show ?thesis
    using usage_is_difference [OF s(1), of 737440 utc Electricity]
      usage_is_difference [OF s(1), of 737425 utc Electricity]
    by (simp add: s b r1 r2 sub strict_mono_utc)
qed

lemma usage_dates_first:
  assumes "readings d \<noteq> []" "first_at d + 2 \<le> last_at d"
  shows "ebind (usage_dates d) (\<lambda>ds. ebind (getitem ds 0) f) = f (first_at d + 2)"
proof -
  have "[first_at d + 2..last_at d] \<noteq> []"
    using assms(2) by simp
  then show ?thesis
    using assms by (simp add: usage_dates_eq hd_upto)
qed

lemma annual_electricity_eq:
  assumes "readings d \<noteq> []" "first_at d + 2 \<le> last_at d"
  shows "average_annual_electricity_consumption tz d =
           ebind (reading tz d (first_at d + 2) Electricity) (\<lambda>s.
           ebind (reading tz d (first_at d + 2 + 365) Electricity) (\<lambda>e. py_sub e s))"
  unfolding average_annual_electricity_consumption_def
  by (subst usage_dates_first [OF assms]) (simp add: electricity_reading_def Let_def)

lemma annual_gas_eq:
  assumes "readings d \<noteq> []" "first_at d + 2 \<le> last_at d"
  shows "average_annual_gas_consumption tz d =
           ebind (reading tz d (first_at d + 2) Gas) (\<lambda>s.
           ebind (reading tz d (first_at d + 2 + 365) Gas) (\<lambda>e. py_sub e s))"
  unfolding average_annual_gas_consumption_def
  by (subst usage_dates_first [OF assms]) (simp add: gas_reading_def Let_def)

section \<open>The annual estimate\<close>

text \<open>
  C2 (amended).  In a store satisfying the invariants whose last reading is at least two
  days after the first, the first usage date is the second day after the first reading
  (\<open>first.at + 2 days\<close>), and each annual estimate is the lookup at \<open>start + 365 days\<close>
  minus the lookup at that \<open>start\<close>, the start lookup made first and an exception of
  either being the estimate's.  Where the store reaches \<open>start + 365 days\<close>, the timestamps
  increase with the date and the meter readings are ints a float holds, both estimates
  return a value.
\<close>

theorem annual_estimate:
  assumes "store_ok d" and "first_at d + 2 \<le> last_at d"
  shows "usage_dates d = Inr [first_at d + 2..last_at d]
       \<and> hd [first_at d + 2..last_at d] = first_at d + 2
       \<and> average_annual_electricity_consumption tz d =
           ebind (reading tz d (first_at d + 2) Electricity) (\<lambda>s.
           ebind (reading tz d (first_at d + 2 + 365) Electricity) (\<lambda>e. py_sub e s))
       \<and> average_annual_gas_consumption tz d =
           ebind (reading tz d (first_at d + 2) Gas) (\<lambda>s.
           ebind (reading tz d (first_at d + 2 + 365) Gas) (\<lambda>e. py_sub e s))
       \<and> (strict_mono (ts tz) \<and> meter_ok d \<and> first_at d + 2 + 365 \<le> last_at d \<longrightarrow>
            (\<exists>v. average_annual_electricity_consumption tz d = Inr v)
          \<and> (\<exists>v. average_annual_gas_consumption tz d = Inr v))"
proof -
  from assms(1) have ne: "readings d \<noteq> []"
    by (simp add: store_ok_def)
  note eqs = annual_electricity_eq [OF ne assms(2), of tz] annual_gas_eq [OF ne assms(2), of tz]
  have run: "\<exists>v. ebind (reading tz d (first_at d + 2) en) (\<lambda>s.
      ebind (reading tz d (first_at d + 2 + 365) en) (\<lambda>e. py_sub e s)) = Inr v"
    if tz: "strict_mono (ts tz)" and m: "meter_ok d" and long: "first_at d + 2 + 365 \<le> last_at d"
    for en
  proof -
    have "first_at d < first_at d + 2" by simp
    from reading_float [OF assms(1) tz m this assms(2)]
    obtain s where s: "reading tz d (first_at d + 2) en = Inr (PFloat s)"
      by blast
    have "first_at d < first_at d + 2 + 365" by simp
    from reading_float [OF assms(1) tz m this long]
    obtain e where e: "reading tz d (first_at d + 2 + 365) en = Inr (PFloat e)"
      by blast
    show ?thesis
      using s e by simp
  qed
  show ?thesis
    using eqs run [of Electricity] run [of Gas] assms(2) ne
    by (simp add: usage_dates_eq hd_upto)
qed

theorem annual_estimate_witness:
  "store_ok kinked_store \<and> first_at kinked_store + 2 \<le> last_at kinked_store
   \<and> strict_mono (ts utc) \<and> meter_ok kinked_store
   \<and> first_at kinked_store + 2 + 365 \<le> last_at kinked_store
   \<and> reading utc kinked_store 737427 Electricity = Inr (PFloat (Fin 2000))
   \<and> reading utc kinked_store 737792 Electricity = Inr (PFloat (Fin 2365))
   \<and> average_annual_electricity_consumption utc kinked_store = Inr (PFloat (Fin 365))"
proof -
  have s: "store_ok kinked_store" "meter_ok kinked_store"
    by (simp_all add: store_ok_def meter_ok_def kinked_store_def)
  have b: "first_at kinked_store = 737425" "last_at kinked_store = 738451"
    by (simp_all add: first_at_def last_at_def kinked_store_def)
  have r1: "reading utc kinked_store 737427 Electricity = Inr (PFloat (Fin 2000))"
    by code_simp
  have r2: "reading utc kinked_store 737792 Electricity = Inr (PFloat (Fin 2365))"
    by code_simp
  have sub: "fsub (Fin 2365) (Fin 2000) = Fin 365"
    by code_simp
  show ?thesis
    using annual_estimate [OF s(1), of utc]
    by (simp add: s b r1 r2 sub strict_mono_utc)
qed

text \<open>
  The claim as stated fails on a store whose slope changes on the second day: the code's
  estimate is the 365 units from 2020-01-03 on, the claimed window from 2020-01-02 on
  would give 2364 - 1000 = 1364.
\<close>

theorem annual_window_starts_late:
  "average_annual_electricity_consumption utc kinked_store = Inr (PFloat (Fin 365))
   \<and> reading utc kinked_store (first_at kinked_store + 1) Electricity = Inr (PFloat (Fin 1000))
   \<and> reading utc kinked_store (first_at kinked_store + 1 + 365) Electricity
        = Inr (PFloat (Fin 2364))
   \<and> py_sub (PFloat (Fin 2364)) (PFloat (Fin 1000)) = Inr (PFloat (Fin 1364))"
  by code_simp

text \<open>
  C3 (amended).  Take a store satisfying the invariants that has a usage date but ends
  before \<open>start + 365 days\<close>, where \<open>start\<close> is the second day after the first reading.
  The lookup at \<open>start + 365 days\<close> fails the range assertion with \<open>AssertionError\<close>, as
  does any out-of-range lookup, such as the one a day after the last reading.  Each annual
  estimate makes its lookup at \<open>start\<close> first: an exception of that lookup is the
  estimate's, and when that lookup returns a value the estimate fails with the
  \<open>AssertionError\<close> of the range assertion.  So neither estimate returns a number.  When
  the electricity estimate fails with \<open>AssertionError\<close>, the report catches it and prints
  the insufficient-data line, and nothing escapes.  The lookup at \<open>start\<close> returns a
  value for gas on a machine whose timestamps increase with the date, and for electricity
  when moreover the meter readings are ints of magnitude at most \<open>2 ^ 53\<close>.
\<close>

theorem short_history_is_range_violation:
  assumes "store_ok d"
    and "first_at d + 2 \<le> last_at d" and "last_at d < first_at d + 2 + 365"
  shows "reading tz d (first_at d + 2 + 365) en = Inl AssertionError
       \<and> reading tz d (last_at d + 1) en = Inl AssertionError
       \<and> average_annual_electricity_consumption tz d =
           ebind (reading tz d (first_at d + 2) Electricity) (\<lambda>s. Inl AssertionError)
       \<and> average_annual_gas_consumption tz d =
           ebind (reading tz d (first_at d + 2) Gas) (\<lambda>s. Inl AssertionError)
       \<and> (\<forall>v. average_annual_electricity_consumption tz d \<noteq> Inr v)
       \<and> (\<forall>v. average_annual_gas_consumption tz d \<noteq> Inr v)
       \<and> ((\<exists>s. reading tz d (first_at d + 2) Electricity = Inr s) \<longrightarrow>
            average_annual_electricity_consumption tz d = Inl AssertionError
          \<and> report tz d = ([InsufficientData], None))
       \<and> ((\<exists>s. reading tz d (first_at d + 2) Gas = Inr s) \<longrightarrow>
            average_annual_gas_consumption tz d = Inl AssertionError)
       \<and> (strict_mono (ts tz) \<longrightarrow> (\<exists>s. reading tz d (first_at d + 2) Gas = Inr s))
       \<and> (strict_mono (ts tz) \<and> meter_ok d \<longrightarrow>
            (\<exists>s. reading tz d (first_at d + 2) Electricity = Inr s))"
proof -
  from assms(1) have ne: "readings d \<noteq> []"
    by (simp add: store_ok_def)
  have stop: "reading tz d (first_at d + 2 + 365) en' = Inl AssertionError" for en'
    using ne assms(3) by (rule reading_above)
  have after: "reading tz d (last_at d + 1) en = Inl AssertionError"
    using ne by (rule reading_above) simp
  have e: "average_annual_electricity_consumption tz d =
      ebind (reading tz d (first_at d + 2) Electricity) (\<lambda>s. Inl AssertionError)"
    unfolding annual_electricity_eq [OF ne assms(2)] stop by simp
  have g: "average_annual_gas_consumption tz d =
      ebind (reading tz d (first_at d + 2) Gas) (\<lambda>s. Inl AssertionError)"
    unfolding annual_gas_eq [OF ne assms(2)] stop by simp
  have never: "ebind m (\<lambda>s. Inl AssertionError) \<noteq> Inr v" for m :: "error + pynum" and v :: pynum
    by (cases m) simp_all
  have caught: "average_annual_electricity_consumption tz d = Inl AssertionError
      \<and> report tz d = ([InsufficientData], None)"
    if "\<exists>s. reading tz d (first_at d + 2) Electricity = Inr s"
    using that by (auto simp: e report_def handler_def)
  have caught_gas: "average_annual_gas_consumption tz d = Inl AssertionError"
    if "\<exists>s. reading tz d (first_at d + 2) Gas = Inr s"
    using that by (auto simp: g)
  have lo: "first_at d < first_at d + 2"
    by simp
  have runs_gas: "\<exists>s. reading tz d (first_at d + 2) Gas = Inr s" if "strict_mono (ts tz)"
    using reading_gas_float [OF assms(1) that lo assms(2)] by auto
  have runs: "\<exists>s. reading tz d (first_at d + 2) Electricity = Inr s"
    if "strict_mono (ts tz)" "meter_ok d"
    using reading_float [OF assms(1) that lo assms(2), of Electricity] by auto
  have ne_e: "\<forall>v. average_annual_electricity_consumption tz d \<noteq> Inr v"
    unfolding e using never by blast
  have ne_g: "\<forall>v. average_annual_gas_consumption tz d \<noteq> Inr v"
    unfolding g using never by blast
  show ?thesis
    using stop after e g ne_e ne_g caught caught_gas runs_gas runs by blast
qed

theorem short_history_is_range_violation_witness:
  "store_ok sixty_day_store
   \<and> first_at sixty_day_store + 2 \<le> last_at sixty_day_store
   \<and> last_at sixty_day_store < first_at sixty_day_store + 2 + 365
   \<and> strict_mono (ts utc) \<and> meter_ok sixty_day_store
   \<and> reading utc sixty_day_store 737427 Electricity
        = Inr (PFloat (Fin (8854733642356053 / 8796093022208)))
   \<and> reading utc sixty_day_store 737427 Gas
        = Inr (PFloat (Fin (7130699410003285 / 70368744177664)))
   \<and> reading utc sixty_day_store 737792 Electricity = Inl AssertionError
   \<and> average_annual_electricity_consumption utc sixty_day_store = Inl AssertionError
   \<and> average_annual_gas_consumption utc sixty_day_store = Inl AssertionError
   \<and> report utc sixty_day_store = ([InsufficientData], None)"
proof -
  have s: "store_ok sixty_day_store" "meter_ok sixty_day_store"
    by (simp_all add: store_ok_def meter_ok_def sixty_day_store_def)
  have b: "first_at sixty_day_store = 737425" "last_at sixty_day_store = 737485"
    by (simp_all add: first_at_def last_at_def sixty_day_store_def)
  have r: "reading utc sixty_day_store 737427 Electricity
      = Inr (PFloat (Fin (8854733642356053 / 8796093022208)))"
    "reading utc sixty_day_store 737427 Gas
      = Inr (PFloat (Fin (7130699410003285 / 70368744177664)))"
    by code_simp+
  show ?thesis
    using short_history_is_range_violation [OF s(1), of utc Electricity]
    by (simp add: s b r strict_mono_utc)
qed

text \<open>
  The claim as stated fails twice.  On the 60-day store the estimate's failure is the
  same value as the failure of a lookup one day outside the store: the two conditions
  cannot be told apart.  On the Apia machine the lookup at \<open>start\<close> divides by zero, the
  estimate fails with \<open>ZeroDivisionError\<close>, and the report lets it escape.
\<close>

theorem short_history_failure_kinds:
  "average_annual_electricity_consumption utc sixty_day_store = Inl AssertionError
   \<and> reading utc sixty_day_store 737424 Electricity = Inl AssertionError
   \<and> reading utc sixty_day_store 737486 Electricity = Inl AssertionError
   \<and> average_annual_electricity_consumption apia apia_store = Inl ZeroDivisionError
   \<and> average_annual_gas_consumption apia apia_store = Inl ZeroDivisionError
   \<and> report apia apia_store = ([], Some ZeroDivisionError)"
  by code_simp

section \<open>Lookups at stored dates\<close>

lemma to_double_is_double: "is_double x \<Longrightarrow> to_double x = Fin x"
  by (simp add: is_double_def to_double_def)

lemma to_double_of_int: "\<bar>n\<bar> \<le> 2 ^ 53 \<Longrightarrow> to_double (of_int n) = Fin (of_int n)"
  using float_of_int_exact [of n] by (simp add: float_of_int_def split: pyfloat.splits)

lemma interpolate_full_electricity:
  assumes "t0 \<noteq> t1" "\<bar>e0\<bar> \<le> 2 ^ 53" "\<bar>e1\<bar> \<le> 2 ^ 53" "\<bar>e1 - e0\<bar> \<le> 2 ^ 53"
  shows "interpolate t0 t1 t1 (PInt e0) (PInt e1) = Inr (PFloat (Fin (of_int e1)))"
proof -
  have p: "int_truediv (t1 - t0) (t1 - t0) = Inr (Fin 1)"
    using assms(1) by (intro int_truediv_self) simp
  have m: "to_double (of_int e1 - of_int e0) = Fin (of_int e1 - of_int e0)"
    using to_double_of_int [OF assms(4)] by simp
  have a: "to_double (of_int e1) = Fin (of_int e1)"
    by (rule to_double_of_int [OF assms(3)])
  show ?thesis
    by (simp add: interpolate_electricity p float_of_int_exact [OF assms(2)]
        float_of_int_exact [OF assms(4)] m a)
qed

lemma interpolate_full_gas:
  assumes "t0 \<noteq> t1" "is_double g1" "is_double (g1 - g0)"
  shows "interpolate t0 t1 t1 (PFloat (Fin g0)) (PFloat (Fin g1)) = Inr (PFloat (Fin g1))"
proof -
  have p: "int_truediv (t1 - t0) (t1 - t0) = Inr (Fin 1)"
    using assms(1) by (intro int_truediv_self) simp
  show ?thesis
    by (simp add: interpolate_gas p fsub_def to_double_is_double [OF assms(3)]
        to_double_is_double [OF assms(2)])
qed

lemma reading_at_stored:
  assumes ok: "store_ok d" and i: "Suc i < length (readings d)"
  shows "reading tz d (r_at (readings d ! Suc i)) en =
           interpolate (ts tz (r_at (readings d ! i))) (ts tz (r_at (readings d ! Suc i)))
             (ts tz (r_at (readings d ! Suc i))) (get (readings d ! i) en)
             (get (readings d ! Suc i) en)"
proof -
  from ok have srt: "sorted_wrt (<) (map r_at (readings d))"
    by (simp add: store_ok_def)
  have "r_at (readings d ! i) < r_at (readings d ! Suc i)"
    using store_nth_less [OF srt _ i, of i] by simp
  then show ?thesis
    by (intro reading_between [OF ok i]) simp_all
qed

lemma store_step_less:
  "store_ok d \<Longrightarrow> Suc i < length (readings d) \<Longrightarrow>
     r_at (readings d ! i) < r_at (readings d ! Suc i)"
  using store_nth_less [of "readings d" i "Suc i"] by (simp add: store_ok_def)

text \<open>
  C9 (amended).  In a store satisfying the invariants, a lookup at the first reading's
  date returns that reading's value without interpolating.  At any other date in range
  the bracket is a pair of adjacent readings with
  \<open>first_reading.at < date \<le> second_reading.at\<close>, so \<open>first_reading.at < second_reading.at\<close>,
  and the lookup is the interpolation between them.  On a machine whose timestamps
  increase with the date the divisor \<open>t1 - t0\<close> is therefore positive and no lookup in
  range raises \<open>ZeroDivisionError\<close>; at a stored date the bracket ends at that reading and
  the progress is exactly \<open>1.0\<close>: the lookup is the interpolation over the whole interval,
  not over one of length zero.
\<close>

theorem bracket_never_degenerate:
  assumes "store_ok d" and "first_at d \<le> a" and "a \<le> last_at d"
  shows "(a = first_at d \<longrightarrow> reading tz d a en = Inr (get (hd (readings d)) en))
       \<and> (a \<noteq> first_at d \<longrightarrow>
            (\<exists>i. Suc i < length (readings d)
               \<and> r_at (readings d ! i) < a \<and> a \<le> r_at (readings d ! Suc i)
               \<and> r_at (readings d ! i) < r_at (readings d ! Suc i)
               \<and> reading tz d a en =
                   interpolate (ts tz (r_at (readings d ! i))) (ts tz (r_at (readings d ! Suc i)))
                     (ts tz a) (get (readings d ! i) en) (get (readings d ! Suc i) en)
               \<and> (strict_mono (ts tz) \<longrightarrow>
                    ts tz (r_at (readings d ! i)) < ts tz (r_at (readings d ! Suc i))
                  \<and> (a = r_at (readings d ! Suc i) \<longrightarrow>
                       int_truediv (ts tz a - ts tz (r_at (readings d ! i)))
                         (ts tz (r_at (readings d ! Suc i)) - ts tz (r_at (readings d ! i)))
                       = Inr (Fin 1)))))
       \<and> (strict_mono (ts tz) \<longrightarrow> reading tz d a en \<noteq> Inl ZeroDivisionError)"
proof (cases "a = first_at d")
  case True
  from assms(1) have ne: "readings d \<noteq> []"
    by (simp add: store_ok_def)
  have "reading tz d a en = Inr (get (hd (readings d)) en)"
    unfolding True using ne store_first_le_last [OF assms(1)] by (rule reading_first)
  with True show ?thesis by simp
next
  case False
  with assms(2) have lo: "first_at d < a" by simp
  from bracket_exists [OF assms(1) lo assms(3)] obtain i where i: "Suc i < length (readings d)"
    and b: "r_at (readings d ! i) < a" "a \<le> r_at (readings d ! Suc i)"
    by blast
  let ?t0 = "ts tz (r_at (readings d ! i))" and ?t1 = "ts tz (r_at (readings d ! Suc i))"
  have step: "r_at (readings d ! i) < r_at (readings d ! Suc i)"
    using b by simp
  have t: "?t0 < ?t1" if "strict_mono (ts tz)"
    using step that by (simp add: strict_mono_less)
  have r: "reading tz d a en =
      interpolate ?t0 ?t1 (ts tz a) (get (readings d ! i) en) (get (readings d ! Suc i) en)"
    by (rule reading_between [OF assms(1) i b])
  have nz: "reading tz d a en \<noteq> Inl ZeroDivisionError" if "strict_mono (ts tz)"
    unfolding r using t [OF that] by (intro interpolate_no_zero_division) simp
  have one: "int_truediv (ts tz a - ?t0) (?t1 - ?t0) = Inr (Fin 1)"
    if "strict_mono (ts tz)" "a = r_at (readings d ! Suc i)"
    unfolding that(2) using t [OF that(1)] by (intro int_truediv_self) simp
  show ?thesis
    using False i b step t r nz one by blast
qed

theorem bracket_never_degenerate_witness:
  "store_ok thirds_store
   \<and> first_at thirds_store \<le> 737435 \<and> 737435 \<le> last_at thirds_store
   \<and> 737435 \<noteq> first_at thirds_store \<and> strict_mono (ts utc)
   \<and> reading utc thirds_store 737435 Gas \<noteq> Inl ZeroDivisionError
   \<and> reading utc thirds_store 737425 Gas = Inr (get (hd (readings thirds_store)) Gas)"
proof -
  have s: "store_ok thirds_store"
    by (simp add: store_ok_def thirds_store_def)
  have b: "first_at thirds_store = 737425" "last_at thirds_store = 737435"
    by (simp_all add: first_at_def last_at_def thirds_store_def)
  show ?thesis
    using bracket_never_degenerate [OF s, of 737435 utc Gas]
      bracket_never_degenerate [OF s, of 737425 utc Gas]
    by (simp add: s b strict_mono_utc)
qed

text \<open>
  The claim as stated fails twice.  On the Apia machine the readings of 2011-12-30 and
  2011-12-31 are strictly ascending by date and have the same timestamp, and the lookup
  at the later date raises \<open>ZeroDivisionError\<close>.  And on a machine in UTC the
  interpolation at a stored date need not return the stored value: with gas readings
  \<open>0.3\<close> and \<open>0.9\<close> the lookup at the second reading's date is \<open>0.3 + (0.9 - 0.3) * 1.0\<close>,
  the float \<open>0.9000000000000001\<close>.
\<close>

theorem stored_date_lookup_degenerates:
  "sorted_wrt (<) (map r_at (readings apia_store))
   \<and> r_at (readings apia_store ! 1) = 734501 \<and> r_at (readings apia_store ! 2) = 734502
   \<and> ts apia 734501 = 1325239200 \<and> ts apia 734502 = 1325239200
   \<and> reading apia apia_store 734502 Gas = Inl ZeroDivisionError
   \<and> reading apia apia_store 734502 Electricity = Inl ZeroDivisionError
   \<and> gas (readings thirds_store ! 1) = Fin (8106479329266893 / 9007199254740992)
   \<and> reading utc thirds_store (r_at (readings thirds_store ! 1)) Gas
        = Inr (PFloat (Fin (8106479329266894 / 9007199254740992)))"
  by code_simp

text \<open>
  C4 (amended).  In a store satisfying the invariants, on a machine whose timestamps
  increase with the date: the lookup at the first reading's date returns the stored value
  itself.  The lookup at a later reading's date is the interpolation from its predecessor
  at progress exactly \<open>1.0\<close>, that is \<open>v0 + (v1 - v0) * 1.0\<close> in float arithmetic.  For
  electricity this is the float equal to the stored int when the two ints and their
  difference are at most \<open>2 ^ 53\<close> in magnitude; for gas it is the stored float when the
  difference of the two stored floats is itself a float.
\<close>

theorem stored_value_lookup:
  assumes "store_ok d" and "strict_mono (ts tz)"
  shows "reading tz d (first_at d) en = Inr (get (hd (readings d)) en)
       \<and> (\<forall>i. Suc i < length (readings d) \<longrightarrow>
            reading tz d (r_at (readings d ! Suc i)) en =
              interpolate (ts tz (r_at (readings d ! i))) (ts tz (r_at (readings d ! Suc i)))
                (ts tz (r_at (readings d ! Suc i))) (get (readings d ! i) en)
                (get (readings d ! Suc i) en)
          \<and> int_truediv (ts tz (r_at (readings d ! Suc i)) - ts tz (r_at (readings d ! i)))
              (ts tz (r_at (readings d ! Suc i)) - ts tz (r_at (readings d ! i))) = Inr (Fin 1)
          \<and> (\<bar>electricity (readings d ! i)\<bar> \<le> 2 ^ 53
               \<and> \<bar>electricity (readings d ! Suc i)\<bar> \<le> 2 ^ 53
               \<and> \<bar>electricity (readings d ! Suc i) - electricity (readings d ! i)\<bar> \<le> 2 ^ 53 \<longrightarrow>
             reading tz d (r_at (readings d ! Suc i)) Electricity =
               Inr (PFloat (Fin (of_int (electricity (readings d ! Suc i))))))
          \<and> (\<forall>g0 g1. gas (readings d ! i) = Fin g0 \<and> gas (readings d ! Suc i) = Fin g1
               \<and> is_double g1 \<and> is_double (g1 - g0) \<longrightarrow>
             reading tz d (r_at (readings d ! Suc i)) Gas = Inr (PFloat (Fin g1))))"
proof -
  from assms(1) have ne: "readings d \<noteq> []"
    by (simp add: store_ok_def)
  have first: "reading tz d (first_at d) en = Inr (get (hd (readings d)) en)"
    using ne store_first_le_last [OF assms(1)] by (rule reading_first)
  have t: "ts tz (r_at (readings d ! i)) \<noteq> ts tz (r_at (readings d ! Suc i))"
    if "Suc i < length (readings d)" for i
    using strict_monoD [OF assms(2) store_step_less [OF assms(1) that]] by simp
  have one: "int_truediv (ts tz (r_at (readings d ! Suc i)) - ts tz (r_at (readings d ! i)))
      (ts tz (r_at (readings d ! Suc i)) - ts tz (r_at (readings d ! i))) = Inr (Fin 1)"
    if "Suc i < length (readings d)" for i
    using t [OF that] by (intro int_truediv_self) simp
  have el: "reading tz d (r_at (readings d ! Suc i)) Electricity =
      Inr (PFloat (Fin (of_int (electricity (readings d ! Suc i)))))"
    if "Suc i < length (readings d)" "\<bar>electricity (readings d ! i)\<bar> \<le> 2 ^ 53"
      "\<bar>electricity (readings d ! Suc i)\<bar> \<le> 2 ^ 53"
      "\<bar>electricity (readings d ! Suc i) - electricity (readings d ! i)\<bar> \<le> 2 ^ 53" for i
    unfolding reading_at_stored [OF assms(1) that(1)]
    using interpolate_full_electricity [OF t [OF that(1)] that(2-4)] by simp
  have ga: "reading tz d (r_at (readings d ! Suc i)) Gas = Inr (PFloat (Fin g1))"
    if "Suc i < length (readings d)" "gas (readings d ! i) = Fin g0"
      "gas (readings d ! Suc i) = Fin g1" "is_double g1" "is_double (g1 - g0)" for i g0 g1
    unfolding reading_at_stored [OF assms(1) that(1)]
    using interpolate_full_gas [OF t [OF that(1)] that(4,5)] that(2,3) by simp
  show ?thesis
    using first reading_at_stored [OF assms(1)] one el ga by blast
qed

theorem stored_value_lookup_witness:
  "store_ok january_store \<and> strict_mono (ts utc) \<and> Suc 0 < length (readings january_store)
   \<and> \<bar>electricity (readings january_store ! 0)\<bar> \<le> 2 ^ 53
   \<and> \<bar>electricity (readings january_store ! Suc 0)\<bar> \<le> 2 ^ 53
   \<and> \<bar>electricity (readings january_store ! Suc 0) - electricity (readings january_store ! 0)\<bar>
        \<le> 2 ^ 53
   \<and> gas (readings january_store ! 0) = Fin 100 \<and> gas (readings january_store ! Suc 0) = Fin 120
   \<and> is_double 120 \<and> is_double (120 - 100)
   \<and> reading utc january_store 737425 Gas = Inr (PFloat (Fin 100))
   \<and> reading utc january_store 737456 Electricity = Inr (PFloat (Fin 1100))
   \<and> reading utc january_store 737456 Gas = Inr (PFloat (Fin 120))"
proof -
  have s: "store_ok january_store"
    by (simp add: store_ok_def january_store_def)
  have b: "first_at january_store = 737425" "readings january_store \<noteq> []"
    by (simp_all add: first_at_def january_store_def)
  have r: "readings january_store ! 0 = \<lparr>r_at = 737425, electricity = 1000, gas = Fin 100\<rparr>"
    "readings january_store ! Suc 0 = \<lparr>r_at = 737456, electricity = 1100, gas = Fin 120\<rparr>"
    "hd (readings january_store) = \<lparr>r_at = 737425, electricity = 1000, gas = Fin 100\<rparr>"
    "length (readings january_store) = 2"
    by (simp_all add: january_store_def)
  have d: "is_double 120" "is_double 20"
    by code_simp+
  show ?thesis
    using stored_value_lookup [OF s strict_mono_utc, of Gas]
      stored_value_lookup [OF s strict_mono_utc, of Electricity]
    by (simp add: s b r d strict_mono_utc)
qed

text \<open>
  The claim as stated fails for gas readings \<open>0.2\<close> and \<open>0.9\<close>: the lookup at the second
  reading's date is \<open>0.2 + (0.9 - 0.2) * 1.0\<close>, the float \<open>0.8999999999999999\<close>, one unit in
  the last place below the stored \<open>0.9\<close>.
\<close>

theorem stored_gas_lookup_drifts:
  "gas (readings tenths_store ! 1) = Fin (8106479329266893 / 9007199254740992)
   \<and> reading utc tenths_store (r_at (readings tenths_store ! 1)) Gas
        = Inr (PFloat (Fin (8106479329266892 / 9007199254740992)))"
  by code_simp

section \<open>Interpolated values stay inside the bracket\<close>

lemma grid_multiple:
  assumes "grid a"
  shows "\<exists>k. a = of_int k * 2 powi (- 1074)"
proof -
  from assms obtain m e where a: "a = of_int m * 2 powi e" and e: "- 1074 \<le> e"
    by (auto simp: grid_def)
  have "a / 2 powi (- 1074) = of_int (m * 2 ^ nat (e - (- 1074)))"
    unfolding a by (rule scale_to_int [OF e])
  then have "a = of_int (m * 2 ^ nat (e - (- 1074))) * 2 powi (- 1074)"
    by (simp add: field_simps del: of_int_mult of_int_power power_int_numeral_neg_numeral)
  then show ?thesis ..
qed

lemma grid_diff_multiple:
  assumes "grid a" "grid b"
  shows "\<exists>k. b - a = of_int k * 2 powi (- 1074)"
proof -
  from grid_multiple [OF assms(1)] obtain k where k: "a = of_int k * 2 powi (- 1074)" ..
  from grid_multiple [OF assms(2)] obtain l where l: "b = of_int l * 2 powi (- 1074)" ..
  have "b - a = of_int (l - k) * 2 powi (- 1074)"
    unfolding k l by (simp add: algebra_simps del: power_int_numeral_neg_numeral)
  then show ?thesis ..
qed

lemma round53_rounded_up:
  assumes z: "0 < z" and up: "z < round53 z" and mult: "z = of_int k * 2 powi (- 1074)"
  shows "\<exists>f. grid f \<and> f \<le> z \<and> round53 z * (1 - 1 / 2 ^ 52) \<le> f"
proof -
  from z have nz: "z \<noteq> 0" by simp
  define E where "E = max (ilog2 z - 52) (- 1074)"
  define q where "q = z / 2 powi E"
  define F where "F = \<lfloor>q\<rfloor>"
  have r: "round53 z = of_int (round_half_even q) * 2 powi E"
    unfolding q_def by (rule round53_unfold [OF nz E_def])
  have zq: "z = q * 2 powi E"
    by (simp add: q_def)
  have qpos: "0 < q"
    using z by (simp add: q_def)
  have "q * 2 powi E < of_int (round_half_even q) * 2 powi E"
    using up by (simp only: r flip: zq)
  then have "q < of_int (round_half_even q)"
    by (simp add: mult_less_cancel_right)
  moreover have "of_int F \<le> q"
    by (simp add: F_def)
  ultimately have "round_half_even q \<noteq> F"
    by auto
  with rhe_cases [of q] have n: "round_half_even q = F + 1"
    by (simp add: F_def)
  have E: "E = ilog2 z - 52"
  proof (rule ccontr)
    assume "E \<noteq> ilog2 z - 52"
    then have E': "E = - 1074"
      by (simp add: E_def max_def split: if_splits)
    have "q = of_int k"
      unfolding q_def E' by (subst mult) simp
    then have "round_half_even q = F"
      by (simp add: F_def)
    with n show False by simp
  qed
  have "(of_int (2 ^ 52) :: rat) \<le> q"
    using q_ge [OF z E] by (simp add: q_def)
  then have Flo: "2 ^ 52 \<le> F"
    by (simp add: F_def le_floor_iff)
  have "q < of_int (2 ^ 53)"
    using q_less [OF z E_def] by (simp add: q_def)
  then have Fhi: "F < 2 ^ 53"
    by (simp add: F_def floor_less_iff)
  define f :: rat where "f = of_int F * 2 powi E"
  have g: "grid f"
    using f_def by (rule gridI) (use Flo Fhi in \<open>simp_all add: E_def\<close>)
  have fz: "f \<le> z"
    unfolding f_def zq by (rule mult_right_mono) (simp_all add: F_def)
  have "(of_int (2 ^ 52) :: rat) \<le> of_int F"
    using Flo by (simp only: of_int_le_iff)
  then have "(2::rat) ^ 52 \<le> of_int F"
    by simp
  then have "(of_int F + 1) * (1 - 1 / 2 ^ 52) \<le> (of_int F :: rat)"
    by (simp add: field_simps)
  then have "(of_int F + 1) * (1 - 1 / 2 ^ 52) * 2 powi E \<le> (of_int F :: rat) * 2 powi E"
    by (rule mult_right_mono) simp
  then have "round53 z * (1 - 1 / 2 ^ 52) \<le> f"
    by (simp add: r n f_def mult.assoc mult.commute mult.left_commute)
  with g fz show ?thesis by blast
qed

lemma scaled_le_delta:
  assumes "grid a" "grid b" "a \<le> b" "0 \<le> p" "p \<le> 1 - 1 / 2 ^ 52"
  shows "round53 (round53 (b - a) * p) \<le> b - a"
proof (cases "round53 (b - a) \<le> b - a")
  case True
  have D: "0 \<le> round53 (b - a)"
    using assms(3) by (intro round53_nonneg) simp
  have "p \<le> 1"
    using assms(5) by (rule order_trans) simp
  then have "round53 (b - a) * p \<le> round53 (b - a)"
    using D by (simp add: mult_left_le)
  then have "round53 (round53 (b - a) * p) \<le> round53 (b - a)"
    by (rule round53_le [OF round53_grid])
  with True show ?thesis by simp
next
  case False
  then have up: "b - a < round53 (b - a)" by simp
  have pos: "0 < b - a"
  proof (rule ccontr)
    assume "\<not> 0 < b - a"
    with assms(3) have "b - a = 0" by simp
    with up show False by simp
  qed
  from grid_diff_multiple [OF assms(1,2)] obtain k where "b - a = of_int k * 2 powi (- 1074)" ..
  from round53_rounded_up [OF pos up this] obtain f
    where f: "grid f" "f \<le> b - a" "round53 (b - a) * (1 - 1 / 2 ^ 52) \<le> f"
    by blast
  have D: "0 \<le> round53 (b - a)"
    using pos by (intro round53_nonneg) simp
  have "round53 (b - a) * p \<le> round53 (b - a) * (1 - 1 / 2 ^ 52)"
    using assms(5) D by (rule mult_left_mono)
  with f(3) have "round53 (b - a) * p \<le> f" by simp
  then have "round53 (round53 (b - a) * p) \<le> f"
    by (rule round53_le [OF f(1)])
  with f(2) show ?thesis by simp
qed

lemma lerp_bounds:
  assumes "grid a" "grid b" "a \<le> b" "0 \<le> p" "p \<le> 1 - 1 / 2 ^ 52"
  shows "a \<le> round53 (a + round53 (round53 (b - a) * p))"
    and "round53 (a + round53 (round53 (b - a) * p)) \<le> b"
    and "0 \<le> round53 (round53 (b - a) * p)"
proof -
  have D: "0 \<le> round53 (b - a)"
    using assms(3) by (intro round53_nonneg) simp
  then show S: "0 \<le> round53 (round53 (b - a) * p)"
    using assms(4) by (intro round53_nonneg) simp
  then have "a \<le> a + round53 (round53 (b - a) * p)" by simp
  then show "a \<le> round53 (a + round53 (round53 (b - a) * p))"
    by (rule round53_ge [OF assms(1)])
  have "a + round53 (round53 (b - a) * p) \<le> b"
    using scaled_le_delta [OF assms] by simp
  then show "round53 (a + round53 (round53 (b - a) * p)) \<le> b"
    by (rule round53_le [OF assms(2)])
qed

lemma progress_below_one:
  assumes "0 < a" "a < b" "b \<le> 2 ^ 52"
  shows "round53 (of_int a / of_int b) \<le> 1 - 1 / 2 ^ 52"
proof -
  have g: "grid (1 - 1 / 2 ^ 52)"
  proof -
    have "(1 - 1 / 2 ^ 52 :: rat) = of_int (2 ^ 52 - 1) * 2 powi (- 52)"
      by (simp add: power_int_minus field_simps)
    then show ?thesis by (rule gridI) simp_all
  qed
  have bpos: "(0::rat) < of_int b"
    using assms(1,2) by simp
  have "(of_int b :: rat) \<le> of_int (2 ^ 52)"
    using assms(3) by (simp only: of_int_le_iff)
  then have b52: "(of_int b :: rat) \<le> 2 ^ 52" by simp
  have "(of_int a :: rat) \<le> of_int (b - 1)"
    using assms(2) by (simp only: of_int_le_iff)
  then have "(of_int a :: rat) / of_int b \<le> (of_int b - 1) / of_int b"
    using bpos by (simp add: divide_right_mono)
  also have "\<dots> = 1 - 1 / of_int b"
    using bpos by (simp add: field_simps)
  also have "\<dots> \<le> 1 - 1 / 2 ^ 52"
    using bpos b52 by (simp add: frac_le)
  finally show ?thesis
    by (rule round53_le [OF g])
qed

lemma pow_1022_less: "(x::rat) < 2 ^ 1022 \<Longrightarrow> x < 2 ^ 1024"
proof -
  assume "x < 2 ^ 1022"
  also have "(2::rat) ^ 1022 < 2 ^ 1024"
    by (rule power_strict_increasing) simp_all
  finally show ?thesis .
qed

lemma lerp_finite:
  assumes "grid a" "grid b" "a \<le> b" "\<bar>a\<bar> < 2 ^ 1022" "\<bar>b\<bar> < 2 ^ 1022"
    and "0 \<le> p" "p \<le> 1 - 1 / 2 ^ 52"
  shows "to_double (b - a) = Fin (round53 (b - a))"
    and "to_double (round53 (b - a) * p) = Fin (round53 (round53 (b - a) * p))"
    and "to_double (a + round53 (round53 (b - a) * p))
           = Fin (round53 (a + round53 (round53 (b - a) * p)))"
proof -
  have two: "(2::rat) ^ 1023 = 2 ^ 1022 + 2 ^ 1022"
    by simp
  have d: "\<bar>b - a\<bar> \<le> 2 ^ 1023"
    using assms(4,5) unfolding two by linarith
  then show "to_double (b - a) = Fin (round53 (b - a))"
    by (rule to_double_small) simp
  note l = lerp_bounds [OF assms(1-3,6,7)]
  have "round53 (round53 (b - a) * p) \<le> b - a"
    by (rule scaled_le_delta [OF assms(1-3,6,7)])
  with l(3) d have "\<bar>round53 (round53 (b - a) * p)\<bar> \<le> 2 ^ 1023"
    by linarith
  also have "(2::rat) ^ 1023 < 2 ^ 1024"
    by (rule power_strict_increasing) simp_all
  finally show "to_double (round53 (b - a) * p) = Fin (round53 (round53 (b - a) * p))"
    by (rule to_double_Fin)
  have "\<bar>round53 (a + round53 (round53 (b - a) * p))\<bar> < 2 ^ 1022"
    using l(1,2) assms(4,5) by linarith
  then have "\<bar>round53 (a + round53 (round53 (b - a) * p))\<bar> < 2 ^ 1024"
    by (rule pow_1022_less)
  then show "to_double (a + round53 (round53 (b - a) * p))
      = Fin (round53 (a + round53 (round53 (b - a) * p)))"
    by (rule to_double_Fin)
qed

lemma value_ok_float:
  assumes "value_ok (PFloat y)"
  obtains x where "y = Fin x" "grid x" "\<bar>x\<bar> < 2 ^ 1022"
proof -
  from assms obtain x where y: "y = Fin x" and d: "is_double x" and e: "ilog2 x < 1022"
    by (cases y) simp_all
  have "\<bar>x\<bar> < 2 ^ 1022"
  proof (cases "x = 0")
    case True
    then show ?thesis by simp
  next
    case False
    from e have "\<bar>x\<bar> < 2 powi 1022"
      by (simp only: ilog2_less_iff [OF False])
    then show ?thesis by simp
  qed
  with y is_double_grid [OF d] that show ?thesis by blast
qed

lemma value_ok_int:
  assumes "value_ok (PInt n)"
  shows "grid (of_int n)" and "\<bar>of_int n :: rat\<bar> < 2 ^ 1022"
proof -
  from assms have n: "\<bar>n\<bar> \<le> 2 ^ 53" by simp
  then show "grid (of_int n)" by (rule grid_of_int)
  have "(of_int \<bar>n\<bar> :: rat) \<le> of_int (2 ^ 53)"
    using n by (simp only: of_int_le_iff)
  then have "\<bar>of_int n :: rat\<bar> \<le> 2 ^ 53" by simp
  also have "(2::rat) ^ 53 < 2 ^ 1022"
    by (rule power_strict_increasing) simp_all
  finally show "\<bar>of_int n :: rat\<bar> < 2 ^ 1022" .
qed

lemma interpolate_between:
  assumes t: "t0 < t" "t < t1" "t1 - t0 \<le> 2 ^ 52"
    and ok: "value_ok (get r0 en)" "value_ok (get r1 en)"
    and le: "py_le (get r0 en) (get r1 en)"
  shows "\<exists>v. interpolate t0 t1 t (get r0 en) (get r1 en) = Inr v
           \<and> py_le (get r0 en) v \<and> py_le v (get r1 en)"
proof -
  define p where "p = round53 (of_int (t - t0) / of_int (t1 - t0))"
  have pr: "int_truediv (t - t0) (t1 - t0) = Inr (Fin p)" and p0: "0 \<le> p"
    using t(1,2) int_truediv_unit [of "t - t0" "t1 - t0"] by (simp_all add: p_def)
  have p1: "p \<le> 1 - 1 / 2 ^ 52"
    unfolding p_def using t by (intro progress_below_one) simp_all
  show ?thesis
  proof (cases en)
    case Electricity
    let ?a = "of_int (electricity r0) :: rat" and ?b = "of_int (electricity r1) :: rat"
    from ok have e: "\<bar>electricity r0\<bar> \<le> 2 ^ 53" "\<bar>electricity r1\<bar> \<le> 2 ^ 53"
      by (simp_all add: Electricity)
    have g: "grid ?a" "grid ?b" and m: "\<bar>?a\<bar> < 2 ^ 1022" "\<bar>?b\<bar> < 2 ^ 1022"
      using ok value_ok_int by (simp_all add: Electricity)
    from le have ab: "?a \<le> ?b"
      by (simp add: py_le_def Electricity)
    note f = lerp_finite [OF g ab m p0 p1]
    note l = lerp_bounds [OF g ab p0 p1]
    have "\<bar>electricity r1 - electricity r0\<bar> \<le> 2 ^ 54"
      using e by simp
    then have d: "float_of_int (electricity r1 - electricity r0) = Inr (Fin (round53 (?b - ?a)))"
      by (simp add: float_of_int_ok)
    have "interpolate t0 t1 t (get r0 en) (get r1 en)
        = Inr (PFloat (Fin (round53 (?a + round53 (round53 (?b - ?a) * p)))))"
      by (simp add: Electricity interpolate_electricity pr d float_of_int_exact [OF e(1)] f)
    with l show ?thesis
      by (simp add: py_le_def Electricity)
  next
    case Gas
    from ok obtain a where a: "gas r0 = Fin a" "grid a" "\<bar>a\<bar> < 2 ^ 1022"
      by (auto simp: Gas elim: value_ok_float)
    from ok obtain b where b: "gas r1 = Fin b" "grid b" "\<bar>b\<bar> < 2 ^ 1022"
      by (auto simp: Gas elim: value_ok_float)
    from le have ab: "a \<le> b"
      by (simp add: py_le_def Gas a b)
    note f = lerp_finite [OF a(2) b(2) ab a(3) b(3) p0 p1]
    note l = lerp_bounds [OF a(2) b(2) ab p0 p1]
    have "interpolate t0 t1 t (get r0 en) (get r1 en)
        = Inr (PFloat (Fin (round53 (a + round53 (round53 (b - a) * p)))))"
      using f by (simp add: Gas interpolate_gas pr a(1) b(1) fsub_def)
    with l show ?thesis
      by (simp add: py_le_def Gas a(1) b(1))
  qed
qed

text \<open>
  C7 (amended).  In a store satisfying the invariants, on a machine whose timestamps
  increase with the date, take two adjacent readings with field values \<open>v0 \<le> v1\<close> that
  are ints of magnitude at most \<open>2 ^ 53\<close> or finite floats of magnitude below \<open>2 ^ 1022\<close>,
  and whose timestamps are at most \<open>2 ^ 52\<close> seconds apart.  At every date strictly
  between them the lookup returns a value \<open>v\<close> with \<open>v0 \<le> v \<le> v1\<close>.
\<close>

theorem interpolated_between:
  assumes "store_ok d" and "strict_mono (ts tz)" and "Suc i < length (readings d)"
    and "r_at (readings d ! i) < a" and "a < r_at (readings d ! Suc i)"
    and "py_le (get (readings d ! i) en) (get (readings d ! Suc i) en)"
    and "value_ok (get (readings d ! i) en)" and "value_ok (get (readings d ! Suc i) en)"
    and "ts tz (r_at (readings d ! Suc i)) - ts tz (r_at (readings d ! i)) \<le> 2 ^ 52"
  shows "\<exists>v. reading tz d a en = Inr v
           \<and> py_le (get (readings d ! i) en) v \<and> py_le v (get (readings d ! Suc i) en)"
proof -
  have t: "ts tz (r_at (readings d ! i)) < ts tz a" "ts tz a < ts tz (r_at (readings d ! Suc i))"
    using assms(2,4,5) by (simp_all add: strict_mono_less)
  have "a \<le> r_at (readings d ! Suc i)"
    using assms(5) by simp
  from reading_between [OF assms(1,3,4) this]
  show ?thesis
    using interpolate_between [OF t assms(9,7,8,6)] by simp
qed

theorem interpolated_between_witness:
  "store_ok january_store \<and> strict_mono (ts utc) \<and> Suc 0 < length (readings january_store)
   \<and> r_at (readings january_store ! 0) < 737440 \<and> 737440 < r_at (readings january_store ! Suc 0)
   \<and> py_le (get (readings january_store ! 0) Gas) (get (readings january_store ! Suc 0) Gas)
   \<and> value_ok (get (readings january_store ! 0) Gas)
   \<and> value_ok (get (readings january_store ! Suc 0) Gas)
   \<and> ts utc (r_at (readings january_store ! Suc 0)) - ts utc (r_at (readings january_store ! 0))
        \<le> 2 ^ 52
   \<and> reading utc january_store 737440 Gas
        = Inr (PFloat (Fin (7717862264647019 / 70368744177664)))
   \<and> py_le (PFloat (Fin 100)) (PFloat (Fin (7717862264647019 / 70368744177664)))
   \<and> py_le (PFloat (Fin (7717862264647019 / 70368744177664))) (PFloat (Fin 120))"
proof -
  have s: "store_ok january_store"
    by (simp add: store_ok_def january_store_def)
  have r: "readings january_store ! 0 = \<lparr>r_at = 737425, electricity = 1000, gas = Fin 100\<rparr>"
    "readings january_store ! Suc 0 = \<lparr>r_at = 737456, electricity = 1100, gas = Fin 120\<rparr>"
    "length (readings january_store) = 2"
    by (simp_all add: january_store_def)
  have v: "is_double 100" "ilog2 100 < 1022" "is_double 120" "ilog2 120 < 1022"
    by code_simp+
  have x: "reading utc january_store 737440 Gas
      = Inr (PFloat (Fin (7717862264647019 / 70368744177664)))"
    by code_simp
  have t: "ts utc 737456 - ts utc 737425 \<le> 4503599627370496"
    by (simp add: ts_def utc_def)
  show ?thesis
    using interpolated_between [OF s strict_mono_utc, of 0 737440 Gas]
    by (simp add: s r v x t strict_mono_utc py_le_def)
qed

text \<open>
  Without the bound on the ints the claim fails: between meter readings
  \<open>9007199254740993\<close> and \<open>9007199254740995\<close> the lookup a day after the first returns
  the float \<open>9007199254740992.0\<close>, below both.
\<close>

theorem huge_meter_reading_below_bracket:
  "get (readings huge_meter_store ! 0) Electricity = PInt 9007199254740993
   \<and> get (readings huge_meter_store ! 1) Electricity = PInt 9007199254740995
   \<and> reading utc huge_meter_store 737426 Electricity = Inr (PFloat (Fin 9007199254740992))
   \<and> \<not> py_le (PInt 9007199254740993) (PFloat (Fin 9007199254740992))"
  by code_simp

end
